theory Spec2Isabelle
  imports Complex_Main "HOL-Library.Multiset"
begin

section \<open>The number library of bc over GMP (lib/number.c)\<close>

text \<open>
  A \<open>bc_num\<close> of the library points to a \<open>bc_struct\<close>: a scale (C \<open>int\<close>), a
  reference count and a GMP integer (\<open>mpz_t\<close>).  The embedding has two layers.
  \<^item> The value layer: a number is the pair of its \<open>n_scale\<close> and \<open>n_value\<close>, and
    every library routine is the function from its operands to the number it installs
    in its result slot.  A routine that can refuse (\<open>bc_divide\<close>, \<open>bc_divmod\<close>,
    \<open>bc_sqrt\<close>, ...) takes the slot's old content and returns the status with the
    slot's new content.
  \<^item> The store layer (further down): cells with reference counts, the free list and
    the allocator, for the properties that depend on sharing.
  The unbounded \<open>mpz_t\<close> is \<open>int\<close>.  Scales and the other C \<open>int\<close>s are \<open>int\<close>
  as well: the arithmetic on them is the mathematical one, which is what C defines as
  long as no signed overflow happens.
\<close>

subsection \<open>The GMP primitives used by the library\<close>

text \<open>\<open>mpz_tdiv_q\<close>: the quotient truncated towards zero.\<close>

definition mpz_tdiv_q :: "int \<Rightarrow> int \<Rightarrow> int" where
  "mpz_tdiv_q n d = sgn n * sgn d * (\<bar>n\<bar> div \<bar>d\<bar>)"

text \<open>\<open>mpz_cmp\<close>, \<open>mpz_cmpabs\<close>: only the sign of the result is specified.\<close>

definition mpz_cmp :: "int \<Rightarrow> int \<Rightarrow> int" where
  "mpz_cmp a b = a - b"

definition mpz_cmpabs :: "int \<Rightarrow> int \<Rightarrow> int" where
  "mpz_cmpabs a b = \<bar>a\<bar> - \<bar>b\<bar>"

text \<open>The host's \<open>long\<close> (LP64) and \<open>mpz_fits_slong_p\<close>.\<close>

definition LONG_MAX :: int where
  "LONG_MAX = 9223372036854775807"

definition mpz_fits_slong_p :: "int \<Rightarrow> bool" where
  "mpz_fits_slong_p v = (- LONG_MAX - 1 \<le> v \<and> v \<le> LONG_MAX)"

subsection \<open>Numbers (h/number.h)\<close>

record bc_val =
  n_scale :: int
  n_value :: int

definition MAX_int :: "int \<Rightarrow> int \<Rightarrow> int" where
  "MAX_int a b = (if a > b then a else b)"

definition MIN_int :: "int \<Rightarrow> int \<Rightarrow> int" where
  "MIN_int a b = (if a > b then b else a)"

text \<open>The rational number that a \<open>bc_struct\<close> stands for.\<close>

definition bc_rat :: "bc_val \<Rightarrow> rat" where
  "bc_rat n = of_int (n_value n) / 10 ^ nat (n_scale n)"

text \<open>Truncation of a rational towards zero.\<close>

definition trunc_rat :: "rat \<Rightarrow> int" where
  "trunc_rat x = (if 0 \<le> x then \<lfloor>x\<rfloor> else - \<lfloor>- x\<rfloor>)"

subsection \<open>Allocation and the shared constants, as values\<close>

definition bc_new_num :: "int \<Rightarrow> int \<Rightarrow> bc_val" where
  "bc_new_num len scale = \<lparr>n_scale = scale, n_value = 0\<rparr>"

definition zero_num :: bc_val where
  "zero_num = bc_new_num 1 0"

definition one_num :: bc_val where
  "one_num = (bc_new_num 1 0)\<lparr>n_value := 1\<rparr>"

definition two_num :: bc_val where
  "two_num = (bc_new_num 1 0)\<lparr>n_value := 2\<rparr>"

subsection \<open>Comparison\<close>

definition bc_do_compare :: "bc_val \<Rightarrow> bc_val \<Rightarrow> bool \<Rightarrow> int" where
  "bc_do_compare n1 n2 use_sign =
    (let result =
       (if n_scale n1 > n_scale n2 then
          (let copy = n_value n2 * 10 ^ nat (n_scale n1 - n_scale n2)
           in if use_sign then mpz_cmp (n_value n1) copy else mpz_cmpabs (n_value n1) copy)
        else if n_scale n1 < n_scale n2 then
          (let copy = n_value n1 * 10 ^ nat (n_scale n2 - n_scale n1)
           in if use_sign then mpz_cmp copy (n_value n2) else mpz_cmpabs copy (n_value n2))
        else
          (if use_sign then mpz_cmp (n_value n1) (n_value n2)
           else mpz_cmpabs (n_value n1) (n_value n2)));
         result = (if result < 0 then - 1 else result);
         result = (if result > 0 then 1 else result)
     in result)"

definition bc_compare :: "bc_val \<Rightarrow> bc_val \<Rightarrow> int" where
  "bc_compare n1 n2 = bc_do_compare n1 n2 True"

definition bc_is_neg :: "bc_val \<Rightarrow> bool" where
  "bc_is_neg num = (sgn (n_value num) = - 1)"

definition bc_is_zero :: "bc_val \<Rightarrow> bool" where
  "bc_is_zero num = (sgn (n_value num) = 0)"

subsection \<open>Addition, subtraction, multiplication\<close>

definition bc_sub :: "bc_val \<Rightarrow> bc_val \<Rightarrow> int \<Rightarrow> bc_val" where
  "bc_sub n1 n2 scale_min =
    (let diff_scale = MAX_int (n_scale n1) (n_scale n2);
         diff = bc_new_num 1 (MAX_int diff_scale scale_min);
         diff =
           (if n_scale n1 > n_scale n2 then
              diff\<lparr>n_value := n_value n1 - n_value n2 * 10 ^ nat (n_scale n1 - n_scale n2)\<rparr>
            else if n_scale n1 < n_scale n2 then
              diff\<lparr>n_value := n_value n1 * 10 ^ nat (n_scale n2 - n_scale n1) - n_value n2\<rparr>
            else diff\<lparr>n_value := n_value n1 - n_value n2\<rparr>)
     in if diff_scale < scale_min
        then diff\<lparr>n_value := n_value diff * 10 ^ nat (scale_min - diff_scale)\<rparr>
        else diff)"

definition bc_add :: "bc_val \<Rightarrow> bc_val \<Rightarrow> int \<Rightarrow> bc_val" where
  "bc_add n1 n2 scale_min =
    (let sum_scale = MAX_int (n_scale n1) (n_scale n2);
         sum = bc_new_num 1 (MAX_int sum_scale scale_min);
         sum =
           (if n_scale n1 > n_scale n2 then
              sum\<lparr>n_value := n_value n1 + n_value n2 * 10 ^ nat (n_scale n1 - n_scale n2)\<rparr>
            else if n_scale n1 < n_scale n2 then
              sum\<lparr>n_value := n_value n1 * 10 ^ nat (n_scale n2 - n_scale n1) + n_value n2\<rparr>
            else sum\<lparr>n_value := n_value n1 + n_value n2\<rparr>)
     in if sum_scale < scale_min
        then sum\<lparr>n_value := n_value sum * 10 ^ nat (scale_min - sum_scale)\<rparr>
        else sum)"

definition bc_multiply :: "bc_val \<Rightarrow> bc_val \<Rightarrow> int \<Rightarrow> bc_val" where
  "bc_multiply n1 n2 scale =
    (let full_scale = n_scale n1 + n_scale n2;
         prod_scale = MIN_int full_scale (MAX_int scale (MAX_int (n_scale n1) (n_scale n2)));
         pval = bc_new_num 1 prod_scale;
         pval = pval\<lparr>n_value := n_value n1 * n_value n2\<rparr>
     in if full_scale > prod_scale
        then pval\<lparr>n_value := mpz_tdiv_q (n_value pval) (10 ^ nat (full_scale - prod_scale))\<rparr>
        else pval)"

subsection \<open>Division\<close>

text \<open>
  \<open>bc_divide\<close> and \<open>bc_divmod\<close> return the status together with the content of
  the result slots after the call; \<open>quot = None\<close> in \<open>bc_divmod\<close> is the call with
  a \<open>NULL\<close> quotient slot.
\<close>

definition bc_divide :: "bc_val \<Rightarrow> bc_val \<Rightarrow> bc_val \<Rightarrow> int \<Rightarrow> int \<times> bc_val" where
  "bc_divide n1 n2 quot scale =
    (if bc_is_zero n2 then (- 1, quot)
     else
       (let qval = bc_new_num 1 scale;
            step_amt = n_scale n2 + scale - n_scale n1;
            qval =
              (if step_amt \<noteq> 0 then
                 (let qval =
                    (if step_amt > 0
                     then qval\<lparr>n_value := n_value n1 * 10 ^ nat step_amt\<rparr>
                     else qval\<lparr>n_value := mpz_tdiv_q (n_value n1) (10 ^ nat (- step_amt))\<rparr>)
                  in qval\<lparr>n_value := mpz_tdiv_q (n_value qval) (n_value n2)\<rparr>)
               else qval\<lparr>n_value := mpz_tdiv_q (n_value n1) (n_value n2)\<rparr>)
        in (0, qval)))"

definition bc_divmod ::
  "bc_val \<Rightarrow> bc_val \<Rightarrow> bc_val option \<Rightarrow> bc_val \<Rightarrow> int \<Rightarrow> int \<times> bc_val option \<times> bc_val" where
  "bc_divmod num1 num2 quot rem scale =
    (if bc_is_zero num2 then (- 1, quot, rem)
     else
       (let rscale = MAX_int (n_scale num1) (n_scale num2 + scale);
            temp = zero_num;
            temp = snd (bc_divide num1 num2 temp scale);
            quotient = temp;
            temp = bc_multiply temp num2 rscale;
            rem = bc_sub num1 temp rscale
        in (0, (if quot \<noteq> None then Some quotient else None), rem)))"

definition bc_modulo :: "bc_val \<Rightarrow> bc_val \<Rightarrow> bc_val \<Rightarrow> int \<Rightarrow> int \<times> bc_val" where
  "bc_modulo num1 num2 result scale =
    (case bc_divmod num1 num2 None result scale of (st, _, r) \<Rightarrow> (st, r))"

subsection \<open>Conversion to a machine integer\<close>

definition bc_num2long :: "bc_val \<Rightarrow> int" where
  "bc_num2long num =
    (if n_scale num > 0 then
       (let copy = mpz_tdiv_q (n_value num) (10 ^ nat (n_scale num))
        in if \<not> mpz_fits_slong_p copy then 0
           else (let val = copy in if val = - LONG_MAX - 1 then 0 else val))
     else
       (if \<not> mpz_fits_slong_p (n_value num) then 0
        else (let val = n_value num in if val = - LONG_MAX - 1 then 0 else val)))"

subsection \<open>Square root\<close>

text \<open>
  \<open>mpz_sqrt\<close> is GMP's: the truncated integer part of the square root of a
  non-negative integer.  Modelled from the spec: GMP is not part of the sources; the
  documented result is computed here two bits at a time (\<open>sqrt_nat_bounds\<close> below
  shows that it is the integer square root).
\<close>

fun sqrt_nat :: "nat \<Rightarrow> nat" where
  "sqrt_nat n =
    (if n < 4 then (if n = 0 then 0 else 1)
     else (let r = 2 * sqrt_nat (n div 4) in if (r + 1) * (r + 1) \<le> n then r + 1 else r))"

declare sqrt_nat.simps [simp del]

definition mpz_sqrt :: "int \<Rightarrow> int" where
  "mpz_sqrt x = int (sqrt_nat (nat x))"

text \<open>\<open>bc_sqrt\<close> returns its status and the content of the slot \<open>num\<close> after the call.\<close>

definition bc_sqrt :: "bc_val \<Rightarrow> int \<Rightarrow> int \<times> bc_val" where
  "bc_sqrt num scale =
    (let cmp_res = bc_compare num zero_num
     in if cmp_res < 0 then (0, num)
        else if cmp_res = 0 then (1, zero_num)
        else
          (let cmp_res = bc_compare num one_num
           in if cmp_res = 0 then (1, one_num)
              else
                (let rscale = MAX_int scale (n_scale num);
                     step_amt = n_scale num + 2 * (rscale - n_scale num);
                     result = bc_new_num 1 rscale;
                     result =
                       (if step_amt \<noteq> 0 then
                          (let result =
                             (if step_amt > 0
                              then result\<lparr>n_value := n_value num * 10 ^ nat step_amt\<rparr>
                              else result\<lparr>n_value := mpz_tdiv_q (n_value num) (10 ^ nat (- step_amt))\<rparr>)
                           in result\<lparr>n_value := mpz_sqrt (n_value result)\<rparr>)
                        else result\<lparr>n_value := mpz_sqrt (n_value num)\<rparr>)
                 in (1, result))))"

subsection \<open>Text: the C library and GMP's formatted input and output\<close>

text \<open>
  A C string is the list of its characters before the terminating NUL.  \<open>isdigit\<close>
  is the C library's, in the C locale.
\<close>

definition isdigit :: "char \<Rightarrow> bool" where
  "isdigit c = (c \<in> set ''0123456789'')"

text \<open>
  \<open>gmp_asprintf\<close> with \<open>%Zd\<close> writes an integer in decimal, a \<open>-\<close> first when
  it is negative, without leading zeros; \<open>dec_nat\<close> gives the digits of the magnitude.
\<close>

definition digit_char :: "nat \<Rightarrow> char" where
  "digit_char d = ''0123456789'' ! d"

text \<open>
  \<open>gmp_sscanf\<close> with \<open>%Zd\<close>, on the texts \<open>bc_str2num\<close> hands to it (an
  optional \<open>-\<close>, then digits): the integer that the digits spell; when no digit
  follows, the conversion fails and the \<open>mpz_t\<close> keeps the value it had.
\<close>

definition digit_val :: "char \<Rightarrow> nat" where
  "digit_val c = of_char c - 48"

fun dec_nat :: "nat \<Rightarrow> string" where
  "dec_nat n = (if n < 10 then [digit_char n] else dec_nat (n div 10) @ [digit_char (n mod 10)])"

declare dec_nat.simps [simp del]

definition dec_val :: "string \<Rightarrow> nat" where
  "dec_val ds = foldl (\<lambda>acc c. 10 * acc + digit_val c) 0 ds"

definition gmp_printf_Zd :: "int \<Rightarrow> string" where
  "gmp_printf_Zd v = (if v < 0 then CHR ''-'' # dec_nat (nat (- v)) else dec_nat (nat v))"

definition gmp_sscanf_Zd :: "string \<Rightarrow> int \<Rightarrow> int" where
  "gmp_sscanf_Zd s old =
    (let neg = (s \<noteq> [] \<and> hd s = CHR ''-'');
         ds = takeWhile isdigit (if neg then tl s else s)
     in if ds = [] then old else if neg then - int (dec_val ds) else int (dec_val ds))"

subsection \<open>Numbers to text and back (base 10)\<close>

text \<open>
  \<open>bc_num2str\<close>: \<open>sptr\<close> is the text written so far, \<open>iptr\<close> what is left of
  GMP's digits; each copying loop of the source is a \<open>take\<close>.
\<close>

definition bc_num2str :: "bc_val \<Rightarrow> string" where
  "bc_num2str num =
    (let signch = (if bc_is_neg num then 1 else 0 :: int);
         nptr = gmp_printf_Zd (n_value num);
         n_len = int (length nptr);
         sptr = (if signch \<noteq> 0 then ''-'' else []);
         iptr = (if signch \<noteq> 0 then tl nptr else nptr);
         n_len = (if signch \<noteq> 0 then n_len - 1 else n_len)
     in if n_len \<ge> n_scale num then
          (let sptr = sptr @ take (nat (n_len - n_scale num)) iptr;
               iptr = drop (nat (n_len - n_scale num)) iptr
           in if n_scale num > 0 then sptr @ ''.'' @ take (nat (n_scale num)) iptr else sptr)
        else
          sptr @ ''.'' @ replicate (nat (n_scale num - n_len)) (CHR ''0'') @ take (nat n_len) iptr)"

text \<open>\<open>at_char ptr c\<close> is the test \<open>*ptr == c\<close> (never true at the end of the text).\<close>

definition at_char :: "string \<Rightarrow> char \<Rightarrow> bool" where
  "at_char ptr c = (ptr \<noteq> [] \<and> hd ptr = c)"

text \<open>
  \<open>bc_str2num\<close>, first pass ("check for valid number and count digits"): the number
  of integer digits after the leading zeros, the number of fraction digits, and the
  rest of the text where the scan stops.
\<close>

definition str2num_count :: "string \<Rightarrow> int \<times> int \<times> string" where
  "str2num_count str =
    (let ptr = str;
         ptr = (if at_char ptr (CHR ''+'') \<or> at_char ptr (CHR ''-'') then tl ptr else ptr);
         ptr = dropWhile (\<lambda>c. c = CHR ''0'') ptr;
         digits = int (length (takeWhile isdigit ptr));
         ptr = dropWhile isdigit ptr;
         ptr = (if at_char ptr (CHR ''.'') then tl ptr else ptr);
         strscale = int (length (takeWhile isdigit ptr));
         ptr = dropWhile isdigit ptr
     in (digits, strscale, ptr))"

text \<open>Second pass ("copy relevant portion of string"): the text handed to GMP.\<close>

definition str2num_copy :: "string \<Rightarrow> int \<Rightarrow> string" where
  "str2num_copy str strscale =
    (let ptr = str;
         ptr = (if at_char ptr (CHR ''+'') then tl ptr else ptr);
         nptr = (if at_char ptr (CHR ''-'') then [hd ptr] else []);
         ptr = (if at_char ptr (CHR ''-'') then tl ptr else ptr);
         ptr = dropWhile (\<lambda>c. c = CHR ''0'') ptr;
         nptr = nptr @ takeWhile isdigit ptr;
         ptr = dropWhile isdigit ptr;
         ptr = (if at_char ptr (CHR ''.'') then tl ptr else ptr)
     in nptr @ take (nat strscale) (takeWhile isdigit ptr))"

definition bc_str2num :: "string \<Rightarrow> int \<Rightarrow> bc_val" where
  "bc_str2num str scale =
    (case str2num_count str of
       (digits, strscale, ptr) \<Rightarrow>
         if ptr \<noteq> [] \<or> digits + strscale = 0 then zero_num
         else
           (let strscale = MIN_int strscale scale;
                num = bc_new_num 1 strscale;
                nptr = str2num_copy str strscale
            in num\<lparr>n_value := gmp_sscanf_Zd nptr (n_value num)\<rparr>))"

text \<open>The decimal digits of the magnitude of the stored integer.\<close>

definition digits_of :: "bc_val \<Rightarrow> string" where
  "digits_of n = dec_nat (nat \<bar>n_value n\<bar>)"

subsection \<open>Output in any base\<close>

definition bc_int2num :: "int \<Rightarrow> bc_val" where
  "bc_int2num val = (bc_new_num 1 0)\<lparr>n_value := val\<rparr>"

definition bc_num_length :: "bc_val \<Rightarrow> int" where
  "bc_num_length num =
    (let nptr = gmp_printf_Zd (n_value num);
         n_len = int (length nptr)
     in if at_char nptr (CHR ''-'') then n_len - 1 else n_len)"

text \<open>The reference string for digits.\<close>

definition ref_str :: string where
  "ref_str = ''0123456789ABCDEF''"

text \<open>
  Output goes through the caller's \<open>out_char\<close>: each output routine is modelled by
  the text it passes to \<open>out_char\<close>, character by character.  \<open>bc_out_long\<close>
  prints \<open>val\<close> with \<open>%ld\<close>, after one space if \<open>space\<close> is set and after the
  zeros that fill it up to \<open>size\<close> characters.
\<close>

definition bc_out_long :: "int \<Rightarrow> int \<Rightarrow> int \<Rightarrow> string" where
  "bc_out_long val size' space =
    (let digits = gmp_printf_Zd val;
         len = int (length digits)
     in (if space \<noteq> 0 then '' '' else []) @ replicate (nat (size' - len)) (CHR ''0'') @ digits)"

text \<open>
  \<open>bc_out_num\<close>, the integer part: digits are taken off \<open>int_part\<close> with
  \<open>bc_modulo\<close> and \<open>bc_divide\<close> and pushed on the stack \<open>digits\<close> until
  \<open>int_part\<close> is zero.  The loop of the source has no other exit (it does not end for
  \<open>o_base\<close> 0 or 1), so the function is partial: \<open>None\<close> is a run that does not
  return.
\<close>

partial_function (option) out_num_int_digits ::
  "bc_val \<Rightarrow> bc_val \<Rightarrow> bc_val \<Rightarrow> int list \<Rightarrow> int list option" where
  "out_num_int_digits int_part base cur_dig digits =
    (if bc_is_zero int_part then Some digits
     else out_num_int_digits (snd (bc_divide int_part base int_part 0)) base
            (snd (bc_modulo int_part base cur_dig 0))
            (bc_num2long (snd (bc_modulo int_part base cur_dig 0)) # digits))"

declare out_num_int_digits.simps [code]

text \<open>
  One digit: through \<open>ref_str\<close> for bases up to 16 (\<open>None\<close> when the digit is no
  index of \<open>ref_str\<close>), through \<open>bc_out_long\<close> otherwise.
\<close>

definition out_digit :: "int \<Rightarrow> int \<Rightarrow> int \<Rightarrow> int \<Rightarrow> string option" where
  "out_digit o_base ix space digit =
    (if o_base \<le> 16
     then (if 0 \<le> digit \<and> digit < 16 then Some [ref_str ! nat digit] else None)
     else Some (bc_out_long digit ix space))"

text \<open>Popping and printing the stack; every integer digit is printed with \<open>space = 1\<close>.\<close>

fun out_num_print_digits :: "int \<Rightarrow> int \<Rightarrow> int list \<Rightarrow> string option" where
  "out_num_print_digits o_base ix [] = Some []"
| "out_num_print_digits o_base ix (digit # digits) =
    (case out_digit o_base ix 1 digit of
       None \<Rightarrow> None
     | Some s \<Rightarrow> map_option ((@) s) (out_num_print_digits o_base ix digits))"

text \<open>
  The fraction part: one digit per round while \<open>t_num\<close>, multiplied by the base each
  round, has no more than \<open>n_scale num\<close> decimal digits.  \<open>out\<close> is the text
  written so far.
\<close>

partial_function (option) out_num_frac_digits ::
  "bc_val \<Rightarrow> int \<Rightarrow> int \<Rightarrow> int \<Rightarrow> bc_val \<Rightarrow> bc_val \<Rightarrow> int \<Rightarrow> bc_val \<Rightarrow> string \<Rightarrow> string option" where
  "out_num_frac_digits num o_base ix pre_space frac_part base t_len t_num out =
    (if t_len \<le> n_scale num then
       (case out_digit o_base ix pre_space
               (bc_num2long (bc_multiply frac_part base (n_scale num))) of
          None \<Rightarrow> None
        | Some s \<Rightarrow>
            out_num_frac_digits num o_base ix (if o_base \<le> 16 then pre_space else 1)
              (bc_sub (bc_multiply frac_part base (n_scale num))
                 (bc_int2num (bc_num2long (bc_multiply frac_part base (n_scale num)))) 0)
              base
              (bc_num_length (bc_multiply t_num base 0))
              (bc_multiply t_num base 0)
              (out @ s))
     else Some out)"

declare out_num_frac_digits.simps [code]

definition bc_out_num :: "bc_val \<Rightarrow> int \<Rightarrow> int \<Rightarrow> string option" where
  "bc_out_num num o_base leading_zero =
    (let sign = (if bc_is_neg num then ''-'' else [])
     in if bc_is_zero num then Some (sign @ ''0'')
        else if o_base = 10 then
          (let nptr = bc_num2str num;
               iptr = (if at_char nptr (CHR ''-'') then tl nptr else nptr)
           in Some (sign @ iptr))
        else
          (let lead = (if leading_zero \<noteq> 0 \<and> bc_is_zero num then ''0'' else []);
               int_part = snd (bc_divide num one_num zero_num 0);
               frac_part = bc_sub num int_part 0;
               int_part = int_part\<lparr>n_value := \<bar>n_value int_part\<bar>\<rparr>;
               frac_part = frac_part\<lparr>n_value := \<bar>n_value frac_part\<bar>\<rparr>;
               base = bc_int2num o_base;
               max_o_digit = bc_int2num (o_base - 1);
               ix = int (length (bc_num2str max_o_digit))
           in case out_num_int_digits int_part base zero_num [] of
                None \<Rightarrow> None
              | Some digits \<Rightarrow>
                 (case out_num_print_digits o_base ix digits of
                    None \<Rightarrow> None
                  | Some ints \<Rightarrow>
                     if n_scale num > 0 then
                       out_num_frac_digits num o_base ix 0 frac_part base
                         (bc_num_length one_num) one_num (sign @ lead @ ints @ ''.'')
                     else Some (sign @ lead @ ints))))"

text \<open>
  For the statement of the output format: the largest C \<open>int\<close> (\<open>o_base\<close> is one),
  the digits of a natural number in base \<open>b\<close> (most significant first), padding
  with zeros on the left, the number of decimal digits of \<open>o_base - 1\<close>, and the
  magnitude of the integer part of a number.
\<close>

definition INT_MAX :: int where
  "INT_MAX = 2147483647"

fun base_digits :: "nat \<Rightarrow> nat \<Rightarrow> nat list" where
  "base_digits b n = (if n = 0 \<or> b < 2 then [] else base_digits b (n div b) @ [n mod b])"

declare base_digits.simps [simp del]

definition zero_pad :: "nat \<Rightarrow> string \<Rightarrow> string" where
  "zero_pad w s = replicate (w - length s) (CHR ''0'') @ s"

definition digit_width :: "int \<Rightarrow> nat" where
  "digit_width o_base = length (dec_nat (nat (o_base - 1)))"

definition int_part_of :: "bc_val \<Rightarrow> nat" where
  "int_part_of num = nat \<bar>mpz_tdiv_q (n_value num) (10 ^ nat (n_scale num))\<bar>"

subsection \<open>Exponentiation\<close>

text \<open>
  \<open>bc_raise\<close>, as a value: \<open>num2\<close> is converted with \<open>bc_num2long\<close>; the
  callbacks \<open>rt_warn\<close> and \<open>rt_error\<close> do not change the number computed and are
  left to the store layer.  \<open>raise_power\<close> is the part of \<open>bc_raise\<close> that fills
  \<open>temp\<close> (allocation, \<open>mpz_pow_ui\<close>, the step to \<open>rscale\<close>); \<open>mpz_pow_ui\<close> is the
  power of \<open>int\<close>.  The status of the final \<open>bc_divide\<close> is dropped, as in the source.

  \<open>exponent\<close> is a \<open>long\<close>, so \<open>num1->n_scale*exponent\<close> is computed in \<open>long\<close>, while
  \<open>rscale\<close> and \<open>diffscale\<close> are \<open>int\<close>: the assignments to them convert a \<open>long\<close> to
  \<open>int\<close>, which on the host (LP64, two's complement) keeps the low 32 bits.
  \<open>long_to_int\<close> is that conversion.  The \<open>long\<close> arithmetic itself is the mathematical
  one, as long as it does not overflow.
\<close>

definition long_to_int :: "int \<Rightarrow> int" where
  "long_to_int v = (v + 2147483648) mod 4294967296 - 2147483648"

definition raise_power :: "bc_val \<Rightarrow> int \<Rightarrow> int \<Rightarrow> bc_val" where
  "raise_power num1 exponent rscale =
    (let temp = bc_new_num 1 rscale;
         diffscale = long_to_int (n_scale num1 * exponent - rscale);
         temp = temp\<lparr>n_value := n_value num1 ^ nat exponent\<rparr>;
         temp =
           (if diffscale \<noteq> 0 then
              (if diffscale < 0
               then temp\<lparr>n_value := n_value temp * 10 ^ nat (- diffscale)\<rparr>
               else temp\<lparr>n_value := mpz_tdiv_q (n_value temp) (10 ^ nat diffscale)\<rparr>)
            else temp)
     in temp)"

definition bc_raise :: "bc_val \<Rightarrow> bc_val \<Rightarrow> bc_val \<Rightarrow> int \<Rightarrow> bc_val" where
  "bc_raise num1 num2 result scale =
    (let exponent = bc_num2long num2
     in if exponent = 0 then one_num
        else
          (let neg = (exponent < 0);
               rscale = (if exponent < 0 then scale
                         else long_to_int
                                (MIN_int (n_scale num1 * exponent) (MAX_int scale (n_scale num1))));
               exponent = (if exponent < 0 then - exponent else exponent);
               temp = raise_power num1 exponent rscale
           in if neg then snd (bc_divide one_num temp result rscale) else temp))"

text \<open>
  The loop of \<open>bc_raisemod\<close> on the handles \<open>power\<close>, \<open>exponent\<close>, \<open>temp\<close> and
  \<open>parity\<close>; it returns \<open>temp\<close>.  It terminates since \<open>bc_divmod\<close> by two at
  scale 0 makes the exponent an integer of smaller magnitude.
\<close>

function raisemod_loop ::
  "bc_val \<Rightarrow> bc_val \<Rightarrow> bc_val \<Rightarrow> bc_val \<Rightarrow> bc_val \<Rightarrow> int \<Rightarrow> int \<Rightarrow> bc_val" where
  "raisemod_loop pwr exponent temp parity md scale rscale =
    (if bc_is_zero exponent then temp
     else
       (case bc_divmod exponent two_num (Some exponent) parity 0 of
          (_, quot, parity) \<Rightarrow>
            raisemod_loop
              (snd (bc_modulo (bc_multiply pwr pwr rscale) md (bc_multiply pwr pwr rscale) scale))
              (case quot of Some e \<Rightarrow> e | None \<Rightarrow> exponent)
              (if \<not> bc_is_zero parity
               then snd (bc_modulo (bc_multiply temp pwr rscale) md (bc_multiply temp pwr rscale) scale)
               else temp)
              parity md scale rscale))"
  by pat_completeness auto

lemma mpz_tdiv_q_1 [simp]: "mpz_tdiv_q n 1 = n"
  by (simp add: mpz_tdiv_q_def mult_sgn_abs)

lemma tdiv_abs: "\<bar>mpz_tdiv_q n d\<bar> = \<bar>n\<bar> div \<bar>d\<bar>"
proof (cases "n = 0 \<or> d = 0")
  case True
  then show ?thesis by (auto simp: mpz_tdiv_q_def)
next
  case False
  then have "0 \<le> \<bar>n\<bar> div \<bar>d\<bar>" by (simp add: pos_imp_zdiv_nonneg_iff)
  then show ?thesis using False by (simp add: mpz_tdiv_q_def abs_mult abs_sgn_eq)
qed

lemma divmod_two_quot:
  "bc_divmod exponent two_num (Some exponent) parity 0 =
     (0, Some (snd (bc_divide exponent two_num zero_num 0)),
      snd (snd (bc_divmod exponent two_num (Some exponent) parity 0)))"
  by (simp add: bc_divmod_def bc_is_zero_def two_num_def bc_new_num_def Let_def)

lemma halve_smaller:
  assumes "\<not> bc_is_zero e"
  shows "n_scale (snd (bc_divide e two_num zero_num 0)) = 0"
    and "0 \<le> n_scale e \<Longrightarrow> \<bar>n_value (snd (bc_divide e two_num zero_num 0))\<bar> < \<bar>n_value e\<bar>"
proof -
  show "n_scale (snd (bc_divide e two_num zero_num 0)) = 0"
    by (simp add: bc_divide_def bc_is_zero_def two_num_def bc_new_num_def Let_def)
  assume s: "0 \<le> n_scale e"
  have v: "n_value e \<noteq> 0" using assms by (simp add: bc_is_zero_def sgn_eq_0_iff)
  have q: "n_value (snd (bc_divide e two_num zero_num 0)) =
      mpz_tdiv_q (mpz_tdiv_q (n_value e) (10 ^ nat (n_scale e))) 2"
    using s by (cases "n_scale e = 0")
      (simp_all add: bc_divide_def bc_is_zero_def two_num_def bc_new_num_def Let_def)
  define a where "a = \<bar>n_value e\<bar> div \<bar>10 ^ nat (n_scale e)\<bar>"
  have a1: "a \<le> \<bar>n_value e\<bar>" unfolding a_def using v by (intro int_div_le_self) simp
  have a0: "0 \<le> a" unfolding a_def by (simp add: pos_imp_zdiv_nonneg_iff)
  have "a div 2 < \<bar>n_value e\<bar>"
  proof (cases "a = 0")
    case True
    then show ?thesis using v by simp
  next
    case False
    then have "a div 2 < a" using a0 by (intro int_div_less_self) simp_all
    then show ?thesis using a1 by simp
  qed
  then show "\<bar>n_value (snd (bc_divide e two_num zero_num 0))\<bar> < \<bar>n_value e\<bar>"
    by (simp add: q tdiv_abs a_def)
qed

termination raisemod_loop
proof (relation "inv_image (less_than <*lex*> less_than)
    (\<lambda>(pwr, exponent, temp, parity, md, scale, rscale).
       (if n_scale exponent < 0 then 1 else 0 :: nat, nat \<bar>n_value exponent\<bar>))", goal_cases)
  case 1
  show ?case by (intro wf_inv_image wf_lex_prod wf_less_than)
next
  case (2 pwr exponent temp parity md scale rscale x y quot parity')
  have q: "quot = Some (snd (bc_divide exponent two_num zero_num 0))"
    using 2(2,3) divmod_two_quot[of exponent parity] by (metis fst_conv snd_conv)
  show ?case
  proof (cases "n_scale exponent < 0")
    case True
    then show ?thesis using halve_smaller(1)[OF 2(1)] by (simp add: q)
  next
    case False
    then have "\<bar>n_value (snd (bc_divide exponent two_num zero_num 0))\<bar> < \<bar>n_value exponent\<bar>"
      using halve_smaller(2)[OF 2(1)] by simp
    then show ?thesis using False halve_smaller(1)[OF 2(1)] by (simp add: q)
  qed
qed

declare raisemod_loop.simps [simp del]


definition bc_raisemod ::
  "bc_val \<Rightarrow> bc_val \<Rightarrow> bc_val \<Rightarrow> bc_val \<Rightarrow> int \<Rightarrow> int \<times> bc_val" where
  "bc_raisemod base expo md result scale =
    (if bc_is_zero md then (- 1, result)
     else if bc_is_neg expo then (- 1, result)
     else
       (let pwr = base;
            exponent = expo;
            temp = one_num;
            parity = zero_num;
            exponent = (if n_scale exponent \<noteq> 0
                        then snd (bc_divide exponent one_num exponent 0) else exponent);
            rscale = MAX_int scale (n_scale base)
        in (0, raisemod_loop pwr exponent temp parity md scale rscale)))"

section \<open>The store layer\<close>

text \<open>
  A \<open>bc_num\<close> is the address of a \<open>bc_struct\<close>; 0 is \<open>NULL\<close>.  The state of the
  library is the content of the cells, the free list \<open>_bc_Free_list\<close> (the cells
  linked through \<open>n_next\<close>, as a list), the next address \<open>bc_num_malloc\<close> hands out,
  the three shared constants, and the messages passed to the host's callbacks
  \<open>rt_warn\<close> and \<open>rt_error\<close>, in order.  A result slot \<open>bc_num *\<close> is passed by
  content: a routine takes the handle the slot holds and returns the handle the slot
  holds afterwards (\<open>bc_num option\<close> for the slot pointer of \<open>bc_divmod\<close> that may
  be \<open>NULL\<close>).  So a slot is a variable of the caller: it is none of \<open>_zero_\<close>,
  \<open>_one_\<close>, \<open>_two_\<close>, and the two slots of \<open>bc_divmod\<close> are two variables; the
  handles they hold may be any, also equal to each other or to an operand.  The
  callbacks return, as those of bc do.
\<close>

type_synonym bc_num = nat

record bc_struct = bc_val +
  n_refs :: int

datatype message = Warn string | Error string

record number_state =
  cells :: "bc_num \<Rightarrow> bc_struct"
  bc_Free_list :: "bc_num list"
  heap_top :: bc_num
  g_zero :: bc_num
  g_one :: bc_num
  g_two :: bc_num
  messages :: "message list"


text \<open>The number held by a cell, and \<open>mpz_set\<close> and its kin on the cell's integer.\<close>

definition val :: "number_state \<Rightarrow> bc_num \<Rightarrow> bc_val" where
  "val st p = \<lparr>n_scale = n_scale (cells st p), n_value = n_value (cells st p)\<rparr>"

definition mpz_set :: "number_state \<Rightarrow> bc_num \<Rightarrow> int \<Rightarrow> number_state" where
  "mpz_set st p v = st\<lparr>cells := (cells st)(p := (cells st p)\<lparr>n_value := v\<rparr>)\<rparr>"


subsection \<open>Allocation and reference counts\<close>

text \<open>
  \<open>bc_new_num\<close> takes the head of the free list, or a new cell.  \<open>bc_free_num\<close>
  drops one reference and puts the cell on the free list when none is left (the
  caller's slot is set to \<open>NULL\<close>: every caller below overwrites the slot or
  drops it).
\<close>

definition bc_new_num_st :: "number_state \<Rightarrow> int \<Rightarrow> int \<Rightarrow> bc_num \<times> number_state" where
  "bc_new_num_st st len scale =
    (let (temp, st) =
       (case bc_Free_list st of
          p # ps \<Rightarrow> (p, st\<lparr>bc_Free_list := ps\<rparr>)
        | [] \<Rightarrow> (heap_top st, st\<lparr>heap_top := heap_top st + 1\<rparr>))
     in (temp, st\<lparr>cells := (cells st)(temp := (cells st temp)\<lparr>n_scale := scale, n_value := 0, n_refs := 1\<rparr>)\<rparr>))"

definition bc_free_num_st :: "number_state \<Rightarrow> bc_num \<Rightarrow> number_state" where
  "bc_free_num_st st num =
    (if num = 0 then st
     else
       (let st = st\<lparr>cells := (cells st)(num := (cells st num)\<lparr>n_refs := n_refs (cells st num) - 1\<rparr>)\<rparr>
        in if n_refs (cells st num) = 0 then st\<lparr>bc_Free_list := num # bc_Free_list st\<rparr> else st))"

definition bc_copy_num_st :: "number_state \<Rightarrow> bc_num \<Rightarrow> bc_num \<times> number_state" where
  "bc_copy_num_st st num =
    (num, st\<lparr>cells := (cells st)(num := (cells st num)\<lparr>n_refs := n_refs (cells st num) + 1\<rparr>)\<rparr>)"

definition bc_init_num_st :: "number_state \<Rightarrow> bc_num \<times> number_state" where
  "bc_init_num_st st = bc_copy_num_st st (g_zero st)"


text \<open>
  The host's callbacks record their message.  \<open>bc_init_numbers\<close> allocates the three
  constants; \<open>empty_state\<close> is the state before it, with nothing allocated.
\<close>

definition rt_warn :: "number_state \<Rightarrow> string \<Rightarrow> number_state" where
  "rt_warn st mesg = st\<lparr>messages := messages st @ [Warn mesg]\<rparr>"

definition rt_error :: "number_state \<Rightarrow> string \<Rightarrow> number_state" where
  "rt_error st mesg = st\<lparr>messages := messages st @ [Error mesg]\<rparr>"

definition empty_state :: number_state where
  "empty_state =
    \<lparr>cells = (\<lambda>_. \<lparr>n_scale = 0, n_value = 0, n_refs = 0\<rparr>), bc_Free_list = [], heap_top = 1,
     g_zero = 0, g_one = 0, g_two = 0, messages = []\<rparr>"

definition bc_init_numbers_st :: "number_state \<Rightarrow> number_state" where
  "bc_init_numbers_st st =
    (let (z, st) = bc_new_num_st st 1 0;
         st = st\<lparr>g_zero := z\<rparr>;
         (z, st) = bc_new_num_st st 1 0;
         st = st\<lparr>g_one := z\<rparr>;
         st = mpz_set st (g_one st) 1;
         (z, st) = bc_new_num_st st 1 0;
         st = st\<lparr>g_two := z\<rparr>
     in mpz_set st (g_two st) 2)"


subsection \<open>The arithmetic routines on the store\<close>

text \<open>
  Each routine is the source's sequence of allocations, \<open>mpz\<close> operations on the cells
  and releases.  The temporaries \<open>step\<close> and \<open>copy\<close> (\<open>mpz_t\<close> on the C stack) are
  no cells and appear as the integers they hold.
\<close>

definition bc_sub_st ::
  "number_state \<Rightarrow> bc_num \<Rightarrow> bc_num \<Rightarrow> bc_num \<Rightarrow> int \<Rightarrow> number_state \<times> bc_num" where
  "bc_sub_st st n1 n2 result scale_min =
    (let diff_scale = MAX_int (n_scale (cells st n1)) (n_scale (cells st n2));
         (diff, st) = bc_new_num_st st 1 (MAX_int diff_scale scale_min);
         st =
           (if n_scale (cells st n1) > n_scale (cells st n2) then
              mpz_set st diff (n_value (cells st n1)
                - n_value (cells st n2) * 10 ^ nat (n_scale (cells st n1) - n_scale (cells st n2)))
            else if n_scale (cells st n1) < n_scale (cells st n2) then
              mpz_set st diff (n_value (cells st n1) * 10 ^ nat (n_scale (cells st n2) - n_scale (cells st n1))
                - n_value (cells st n2))
            else mpz_set st diff (n_value (cells st n1) - n_value (cells st n2)));
         st =
           (if diff_scale < scale_min
            then mpz_set st diff (n_value (cells st diff) * 10 ^ nat (scale_min - diff_scale))
            else st);
         st = bc_free_num_st st result
     in (st, diff))"

definition bc_add_st ::
  "number_state \<Rightarrow> bc_num \<Rightarrow> bc_num \<Rightarrow> bc_num \<Rightarrow> int \<Rightarrow> number_state \<times> bc_num" where
  "bc_add_st st n1 n2 result scale_min =
    (let sum_scale = MAX_int (n_scale (cells st n1)) (n_scale (cells st n2));
         (sum, st) = bc_new_num_st st 1 (MAX_int sum_scale scale_min);
         st =
           (if n_scale (cells st n1) > n_scale (cells st n2) then
              mpz_set st sum (n_value (cells st n1)
                + n_value (cells st n2) * 10 ^ nat (n_scale (cells st n1) - n_scale (cells st n2)))
            else if n_scale (cells st n1) < n_scale (cells st n2) then
              mpz_set st sum (n_value (cells st n1) * 10 ^ nat (n_scale (cells st n2) - n_scale (cells st n1))
                + n_value (cells st n2))
            else mpz_set st sum (n_value (cells st n1) + n_value (cells st n2)));
         st =
           (if sum_scale < scale_min
            then mpz_set st sum (n_value (cells st sum) * 10 ^ nat (scale_min - sum_scale))
            else st);
         st = bc_free_num_st st result
     in (st, sum))"

definition bc_multiply_st ::
  "number_state \<Rightarrow> bc_num \<Rightarrow> bc_num \<Rightarrow> bc_num \<Rightarrow> int \<Rightarrow> number_state \<times> bc_num" where
  "bc_multiply_st st n1 n2 prd scale =
    (let full_scale = n_scale (cells st n1) + n_scale (cells st n2);
         prod_scale = MIN_int full_scale
                        (MAX_int scale (MAX_int (n_scale (cells st n1)) (n_scale (cells st n2))));
         (pval, st) = bc_new_num_st st 1 prod_scale;
         st = mpz_set st pval (n_value (cells st n1) * n_value (cells st n2));
         st =
           (if full_scale > prod_scale
            then mpz_set st pval
                   (mpz_tdiv_q (n_value (cells st pval)) (10 ^ nat (full_scale - prod_scale)))
            else st);
         st = bc_free_num_st st prd
     in (st, pval))"

definition bc_divide_st ::
  "number_state \<Rightarrow> bc_num \<Rightarrow> bc_num \<Rightarrow> bc_num \<Rightarrow> int \<Rightarrow> int \<times> number_state \<times> bc_num" where
  "bc_divide_st st n1 n2 quot scale =
    (if bc_is_zero (val st n2) then (- 1, st, quot)
     else
       (let (qval, st) = bc_new_num_st st 1 scale;
            step_amt = n_scale (cells st n2) + scale - n_scale (cells st n1);
            st =
              (if step_amt \<noteq> 0 then
                 (let st =
                    (if step_amt > 0
                     then mpz_set st qval (n_value (cells st n1) * 10 ^ nat step_amt)
                     else mpz_set st qval (mpz_tdiv_q (n_value (cells st n1)) (10 ^ nat (- step_amt))))
                  in mpz_set st qval (mpz_tdiv_q (n_value (cells st qval)) (n_value (cells st n2))))
               else mpz_set st qval (mpz_tdiv_q (n_value (cells st n1)) (n_value (cells st n2))));
            st = bc_free_num_st st quot
        in (0, st, qval)))"

definition bc_divmod_st ::
  "number_state \<Rightarrow> bc_num \<Rightarrow> bc_num \<Rightarrow> bc_num option \<Rightarrow> bc_num \<Rightarrow> int
     \<Rightarrow> int \<times> number_state \<times> bc_num option \<times> bc_num" where
  "bc_divmod_st st num1 num2 quot rem scale =
    (if bc_is_zero (val st num2) then (- 1, st, quot, rem)
     else
       (let quotient = 0;
            rscale = MAX_int (n_scale (cells st num1)) (n_scale (cells st num2) + scale);
            (temp, st) = bc_init_num_st st;
            (_, st, temp) = bc_divide_st st num1 num2 temp scale;
            (quotient, st) = (if quot \<noteq> None then bc_copy_num_st st temp else (quotient, st));
            (st, temp) = bc_multiply_st st temp num2 temp rscale;
            (st, rem) = bc_sub_st st num1 temp rem rscale;
            st = bc_free_num_st st temp;
            (quot, st) =
              (case quot of
                 Some q \<Rightarrow> (Some quotient, bc_free_num_st st q)
               | None \<Rightarrow> (None, st))
        in (0, st, quot, rem)))"

definition bc_modulo_st ::
  "number_state \<Rightarrow> bc_num \<Rightarrow> bc_num \<Rightarrow> bc_num \<Rightarrow> int \<Rightarrow> int \<times> number_state \<times> bc_num" where
  "bc_modulo_st st num1 num2 result scale =
    (case bc_divmod_st st num1 num2 None result scale of (r, st, _, result) \<Rightarrow> (r, st, result))"


text \<open>
  \<open>bc_raise\<close>: the check of the exponent first (scale digits, conversion to a
  \<open>long\<close>, the error for an exponent that is too large), then the power in \<open>temp\<close>,
  then the assignment.  With a negative exponent \<open>temp\<close> is never released and the
  status of \<open>bc_divide\<close> is dropped.
\<close>

definition raise_exponent_st :: "number_state \<Rightarrow> bc_num \<Rightarrow> number_state \<times> int" where
  "raise_exponent_st st num2 =
    (let st = (if n_scale (cells st num2) \<noteq> 0
               then rt_warn st ''non-zero scale in exponent'' else st);
         exponent = bc_num2long (val st num2);
         st = (if exponent = 0 \<and> bc_do_compare (val st num2) (val st (g_one st)) False > 0
               then rt_error st ''exponent too large in raise'' else st)
     in (st, exponent))"

definition raise_power_st ::
  "number_state \<Rightarrow> bc_num \<Rightarrow> int \<Rightarrow> int \<Rightarrow> bc_num \<times> number_state" where
  "raise_power_st st num1 exponent rscale =
    (let (temp, st) = bc_new_num_st st 1 rscale;
         diffscale = long_to_int (n_scale (cells st num1) * exponent - rscale);
         st = mpz_set st temp (n_value (cells st num1) ^ nat exponent);
         st =
           (if diffscale \<noteq> 0 then
              (if diffscale < 0
               then mpz_set st temp (n_value (cells st temp) * 10 ^ nat (- diffscale))
               else mpz_set st temp (mpz_tdiv_q (n_value (cells st temp)) (10 ^ nat diffscale)))
            else st)
     in (temp, st))"

definition bc_raise_st ::
  "number_state \<Rightarrow> bc_num \<Rightarrow> bc_num \<Rightarrow> bc_num \<Rightarrow> int \<Rightarrow> number_state \<times> bc_num" where
  "bc_raise_st st num1 num2 result scale =
    (let (st, exponent) = raise_exponent_st st num2
     in if exponent = 0 then
          (let st = bc_free_num_st st result;
               (p, st) = bc_copy_num_st st (g_one st)
           in (st, p))
        else
          (let neg = (exponent < 0);
               rscale = (if exponent < 0 then scale
                         else long_to_int
                                (MIN_int (n_scale (cells st num1) * exponent)
                                   (MAX_int scale (n_scale (cells st num1)))));
               exponent = (if exponent < 0 then - exponent else exponent);
               (temp, st) = raise_power_st st num1 exponent rscale
           in if neg then
                (case bc_divide_st st (g_one st) temp result rscale of (_, st, p) \<Rightarrow> (st, p))
              else (bc_free_num_st st result, temp)))"

partial_function (option) raisemod_loop_st ::
  "number_state \<Rightarrow> bc_num \<Rightarrow> bc_num \<Rightarrow> bc_num \<Rightarrow> bc_num \<Rightarrow> bc_num \<Rightarrow> int \<Rightarrow> int
     \<Rightarrow> (number_state \<times> bc_num \<times> bc_num \<times> bc_num \<times> bc_num) option" where
  "raisemod_loop_st st pwr exponent temp parity md scale rscale =
    (if bc_is_zero (val st exponent) then Some (st, pwr, exponent, temp, parity)
     else
       (case bc_divmod_st st exponent (g_two st) (Some exponent) parity 0 of
          (_, st, quot, parity) \<Rightarrow>
            (case (if \<not> bc_is_zero (val st parity)
                   then (case bc_multiply_st st temp pwr temp rscale of
                           (st, temp) \<Rightarrow>
                             (case bc_modulo_st st temp md temp scale of (_, st, temp) \<Rightarrow> (st, temp)))
                   else (st, temp)) of
               (st, temp) \<Rightarrow>
                 (case bc_multiply_st st pwr pwr pwr rscale of
                    (st, pwr) \<Rightarrow>
                      (case bc_modulo_st st pwr md pwr scale of
                         (_, st, pwr) \<Rightarrow>
                           raisemod_loop_st st pwr (case quot of Some e \<Rightarrow> e | None \<Rightarrow> exponent)
                             temp parity md scale rscale)))))"

declare raisemod_loop_st.simps [code]

definition bc_raisemod_st ::
  "number_state \<Rightarrow> bc_num \<Rightarrow> bc_num \<Rightarrow> bc_num \<Rightarrow> bc_num \<Rightarrow> int
     \<Rightarrow> (int \<times> number_state \<times> bc_num) option" where
  "bc_raisemod_st st base expo md result scale =
    (if bc_is_zero (val st md) then Some (- 1, st, result)
     else if bc_is_neg (val st expo) then Some (- 1, st, result)
     else
       (let (pwr, st) = bc_copy_num_st st base;
            (exponent, st) = bc_copy_num_st st expo;
            (temp, st) = bc_copy_num_st st (g_one st);
            (parity, st) = bc_init_num_st st;
            st = (if n_scale (cells st base) \<noteq> 0 then rt_warn st ''non-zero scale in base'' else st);
            (st, exponent) =
              (if n_scale (cells st exponent) \<noteq> 0 then
                 (case bc_divide_st (rt_warn st ''non-zero scale in exponent'')
                         exponent (g_one st) exponent 0 of
                    (_, st, exponent) \<Rightarrow> (st, exponent))
               else (st, exponent));
            st = (if n_scale (cells st md) \<noteq> 0 then rt_warn st ''non-zero scale in modulus'' else st);
            rscale = MAX_int scale (n_scale (cells st base))
        in case raisemod_loop_st st pwr exponent temp parity md scale rscale of
             None \<Rightarrow> None
           | Some (st, pwr, exponent, temp, parity) \<Rightarrow>
               (let st = bc_free_num_st st pwr;
                    st = bc_free_num_st st exponent;
                    st = bc_free_num_st st result
                in Some (0, st, temp))))"

definition bc_sqrt_st :: "number_state \<Rightarrow> bc_num \<Rightarrow> int \<Rightarrow> int \<times> number_state \<times> bc_num" where
  "bc_sqrt_st st num scale =
    (let cmp_res = bc_compare (val st num) (val st (g_zero st))
     in if cmp_res < 0 then (0, st, num)
        else if cmp_res = 0 then
          (case bc_copy_num_st (bc_free_num_st st num) (g_zero st) of (p, st) \<Rightarrow> (1, st, p))
        else
          (let cmp_res = bc_compare (val st num) (val st (g_one st))
           in if cmp_res = 0 then
                (case bc_copy_num_st (bc_free_num_st st num) (g_one st) of (p, st) \<Rightarrow> (1, st, p))
              else
                (let rscale = MAX_int scale (n_scale (cells st num));
                     step_amt = n_scale (cells st num) + 2 * (rscale - n_scale (cells st num));
                     (result, st) = bc_new_num_st st 1 rscale;
                     st =
                       (if step_amt \<noteq> 0 then
                          (let st =
                             (if step_amt > 0
                              then mpz_set st result (n_value (cells st num) * 10 ^ nat step_amt)
                              else mpz_set st result
                                     (mpz_tdiv_q (n_value (cells st num)) (10 ^ nat (- step_amt))))
                           in mpz_set st result (mpz_sqrt (n_value (cells st result))))
                        else mpz_set st result (mpz_sqrt (n_value (cells st num))));
                     st = bc_free_num_st st num
                 in (1, st, result))))"


subsection \<open>Frames and ownership\<close>

text \<open>What the four single-cell routines have in common: allocate, compute, release, install.\<close>

definition install :: "number_state \<Rightarrow> bc_val \<Rightarrow> bc_num \<Rightarrow> number_state \<times> bc_num" where
  "install st v result =
    (let (p, st) = bc_new_num_st st 1 (n_scale v);
         st = mpz_set st p (n_value v);
         st = bc_free_num_st st result
     in (st, p))"

definition next_cell :: "number_state \<Rightarrow> bc_num" where
  "next_cell st = (case bc_Free_list st of p # ps \<Rightarrow> p | [] \<Rightarrow> heap_top st)"

definition alloc_ok :: "number_state \<Rightarrow> bool" where
  "alloc_ok st =
    (distinct (bc_Free_list st) \<and> 0 < heap_top st \<and>
     list_all (\<lambda>p. 0 < p \<and> p < heap_top st) (bc_Free_list st))"

definition live :: "number_state \<Rightarrow> bc_num \<Rightarrow> bool" where
  "live st p = (0 < p \<and> p < heap_top st \<and> p \<notin> set (bc_Free_list st) \<and> 0 < n_refs (cells st p))"

definition same_globals :: "number_state \<Rightarrow> number_state \<Rightarrow> bool" where
  "same_globals st st' =
    (g_zero st' = g_zero st \<and> g_one st' = g_one st \<and> g_two st' = g_two st)"

definition changed :: "number_state \<Rightarrow> number_state \<Rightarrow> (bc_num \<Rightarrow> int) \<Rightarrow> bool" where
  "changed st st' d =
    (alloc_ok st' \<and> same_globals st st' \<and>
     (\<forall>y. live st y \<and> 0 < n_refs (cells st y) + d y \<longrightarrow>
        live st' y \<and> val st' y = val st y \<and> n_refs (cells st' y) = n_refs (cells st y) + d y))"

definition fresh_result ::
  "number_state \<Rightarrow> number_state \<Rightarrow> bc_num \<Rightarrow> bc_val \<Rightarrow> bc_num \<Rightarrow> bool" where
  "fresh_result st st' p v c =
    (changed st st' (\<lambda>y. if y = c then - 1 else 0) \<and>
     \<not> live st p \<and> live st' p \<and> val st' p = v \<and> n_refs (cells st' p) = 1)"

text \<open>
  The handles a routine holds: \<open>owns st0 st H\<close> says that, since \<open>st0\<close>, the cells
  live in \<open>st0\<close> have kept their numbers and gained the references counted in \<open>H\<close>,
  and that every cell of \<open>H\<close> is live with at least as many references as \<open>H\<close>
  holds of it.
\<close>

definition owns :: "number_state \<Rightarrow> number_state \<Rightarrow> bc_num multiset \<Rightarrow> bool" where
  "owns st0 st H =
    (changed st0 st (\<lambda>y. int (count H y)) \<and>
     (\<forall>x \<in># H. live st x \<and> int (count H x) \<le> n_refs (cells st x)))"


text \<open>
  The state the library runs in: the allocator is consistent and the three shared
  constants are live cells that hold 0, 1 and 2.
\<close>

definition state_ok :: "number_state \<Rightarrow> bool" where
  "state_ok st =
    (alloc_ok st \<and> live st (g_zero st) \<and> live st (g_one st) \<and> live st (g_two st) \<and>
     val st (g_zero st) = zero_num \<and> val st (g_one st) = one_num \<and> val st (g_two st) = two_num)"

text \<open>
  A call that starts in \<open>st\<close> with the slot holding \<open>c\<close> and ends in \<open>st'\<close> with the
  slot holding \<open>p\<close> has written fresh storage: \<open>p\<close> was no live cell before the call,
  it is live afterwards and holds \<open>v\<close>, and of the cells live before the call only \<open>c\<close>
  has changed, by the one reference the slot gave up (a cell that keeps a reference
  keeps its number).
\<close>

definition writes_fresh ::
  "number_state \<Rightarrow> bc_num \<Rightarrow> number_state \<Rightarrow> bc_num \<Rightarrow> bc_val \<Rightarrow> bool" where
  "writes_fresh st c st' p v =
    (\<not> live st p \<and> live st' p \<and> val st' p = v \<and>
     changed st st' (\<lambda>y. if y = c then - 1 else 0))"

text \<open>
  A state for examples: the constants, then 7, 5, 13, \<open>- LONG_MAX - 1\<close>, 0.5 and
  \<open>- 1\<close>.
\<close>

definition demo_state :: number_state where
  "demo_state =
    (let st = bc_init_numbers_st empty_state;
         (a, st) = bc_new_num_st st 1 0; st = mpz_set st a 7;
         (b, st) = bc_new_num_st st 1 0; st = mpz_set st b 5;
         (c, st) = bc_new_num_st st 1 0; st = mpz_set st c 13;
         (d, st) = bc_new_num_st st 1 0; st = mpz_set st d (- LONG_MAX - 1);
         (e, st) = bc_new_num_st st 1 1; st = mpz_set st e 5;
         (f, st) = bc_new_num_st st 1 0; st = mpz_set st f (- 1)
     in st)"

text \<open>
  A second one, for exponents beyond 32 bits: the constants, then 0.1,
  \<open>4294967296\<close> and \<open>- 4294967296\<close>.
\<close>

definition wide_state :: number_state where
  "wide_state =
    (let st = bc_init_numbers_st empty_state;
         (a, st) = bc_new_num_st st 1 1; st = mpz_set st a 1;
         (b, st) = bc_new_num_st st 1 0; st = mpz_set st b 4294967296;
         (c, st) = bc_new_num_st st 1 0; st = mpz_set st c (- 4294967296)
     in st)"

section \<open>Properties\<close>

subsection \<open>Truncating division\<close>

lemma MAX_int_max: "MAX_int a b = max a b"
  by (simp add: MAX_int_def max_def)

lemma MIN_int_min: "MIN_int a b = min a b"
  by (simp add: MIN_int_def min_def)


lemma mpz_tdiv_q_rat:
  assumes "0 < d"
  shows "mpz_tdiv_q n d = trunc_rat (of_int n / of_int d)"
proof (cases "0 \<le> n")
  case True
  then have "(0::rat) \<le> of_int n / of_int d" using assms by simp
  moreover have "\<lfloor>(of_int n / of_int d :: rat)\<rfloor> = n div d" by (simp add: floor_divide_of_int_eq)
  ultimately show ?thesis using True assms
    by (cases "n = 0") (simp_all add: mpz_tdiv_q_def trunc_rat_def)
next
  case False
  then have n: "n < 0" by simp
  then have neg: "\<not> (0::rat) \<le> of_int n / of_int d" using assms by (simp add: divide_less_0_iff not_le)
  have "\<lfloor>- (of_int n / of_int d :: rat)\<rfloor> = \<lfloor>(of_int (- n) / of_int d :: rat)\<rfloor>" by simp
  also have "\<dots> = (- n) div d" by (simp only: floor_divide_of_int_eq)
  finally show ?thesis using n assms neg
    by (simp add: mpz_tdiv_q_def trunc_rat_def)
qed

subsection \<open>Multiplication\<close>

lemma bc_multiply_scale:
  "n_scale (bc_multiply n1 n2 scale) =
     min (n_scale n1 + n_scale n2) (max scale (max (n_scale n1) (n_scale n2)))"
  by (simp add: bc_multiply_def Let_def bc_new_num_def MAX_int_max MIN_int_min)

lemma bc_multiply_value:
  "n_value (bc_multiply n1 n2 scale) =
    (let full = n_scale n1 + n_scale n2;
         rs = min full (max scale (max (n_scale n1) (n_scale n2)))
     in if full > rs then mpz_tdiv_q (n_value n1 * n_value n2) (10 ^ nat (full - rs))
        else n_value n1 * n_value n2)"
  by (simp add: bc_multiply_def Let_def bc_new_num_def MAX_int_max MIN_int_min)

lemma bc_multiply_rat:
  assumes "0 \<le> n_scale n1" "0 \<le> n_scale n2"
  shows "bc_rat (bc_multiply n1 n2 scale) =
     of_int (trunc_rat (bc_rat n1 * bc_rat n2 * 10 ^ nat (n_scale (bc_multiply n1 n2 scale))))
       / 10 ^ nat (n_scale (bc_multiply n1 n2 scale))"
proof -
  define full where "full = n_scale n1 + n_scale n2"
  define rs where "rs = min full (max scale (max (n_scale n1) (n_scale n2)))"
  have rs: "n_scale (bc_multiply n1 n2 scale) = rs" by (simp add: bc_multiply_scale rs_def full_def)
  have rs0: "0 \<le> rs" "rs \<le> full" using assms by (auto simp: rs_def full_def)
  have prod: "bc_rat n1 * bc_rat n2 = of_int (n_value n1 * n_value n2) / 10 ^ nat full"
    using assms by (simp add: bc_rat_def full_def nat_add_distrib power_add)
  have split: "(10::rat) ^ nat full = 10 ^ nat (full - rs) * 10 ^ nat rs"
    using rs0 by (simp flip: power_add nat_add_distrib)
  have scaled: "bc_rat n1 * bc_rat n2 * 10 ^ nat rs =
      of_int (n_value n1 * n_value n2) / of_int (10 ^ nat (full - rs))"
    unfolding prod split by simp
  have v: "n_value (bc_multiply n1 n2 scale) =
      mpz_tdiv_q (n_value n1 * n_value n2) (10 ^ nat (full - rs))"
    using rs0 by (cases "full > rs") (simp_all add: bc_multiply_value Let_def flip: rs_def full_def)
  have "mpz_tdiv_q (n_value n1 * n_value n2) (10 ^ nat (full - rs)) =
      trunc_rat (bc_rat n1 * bc_rat n2 * 10 ^ nat rs)"
    unfolding scaled by (rule mpz_tdiv_q_rat) simp
  then show ?thesis unfolding rs by (simp add: bc_rat_def v rs)
qed

text \<open>
  Claim C2.  For all numbers \<open>n1\<close>, \<open>n2\<close> (of non-negative scale, as every number
  is) and every requested scale, \<open>bc_multiply\<close> stores its result with the scale
  \<open>min (n1.scale + n2.scale) (max scale n1.scale n2.scale)\<close>; the stored integer is
  the exact product of the two stored integers, divided with truncation towards zero by
  \<open>10 ^ (full - result_scale)\<close> when \<open>full = n1.scale + n2.scale\<close> exceeds the
  result scale, and the exact product otherwise; so the number stored is the exact
  rational product truncated towards zero at \<open>result_scale\<close> decimal digits.
\<close>

theorem bc_multiply_truncates:
  assumes "0 \<le> n_scale n1" and "0 \<le> n_scale n2"
  shows "n_scale (bc_multiply n1 n2 scale) =
           min (n_scale n1 + n_scale n2) (max scale (max (n_scale n1) (n_scale n2)))
       \<and> n_value (bc_multiply n1 n2 scale) =
           (let full = n_scale n1 + n_scale n2;
                result_scale = min full (max scale (max (n_scale n1) (n_scale n2)))
            in if full > result_scale
               then mpz_tdiv_q (n_value n1 * n_value n2) (10 ^ nat (full - result_scale))
               else n_value n1 * n_value n2)
       \<and> bc_rat (bc_multiply n1 n2 scale) =
           of_int (trunc_rat (bc_rat n1 * bc_rat n2 * 10 ^ nat (n_scale (bc_multiply n1 n2 scale))))
             / 10 ^ nat (n_scale (bc_multiply n1 n2 scale))"
  using bc_multiply_scale [of n1 n2 scale] bc_multiply_value [of n1 n2 scale]
    bc_multiply_rat [OF assms, of scale]
  by (intro conjI)

text \<open>\<open>- 1.25 * 0.37\<close> at scale 2 is \<open>- 0.4625\<close>, stored as \<open>- 0.46\<close>.\<close>

theorem bc_multiply_truncates_witness:
  "n_scale (bc_multiply \<lparr>n_scale = 2, n_value = - 125\<rparr> \<lparr>n_scale = 2, n_value = 37\<rparr> 2) = 2
   \<and> n_value (bc_multiply \<lparr>n_scale = 2, n_value = - 125\<rparr> \<lparr>n_scale = 2, n_value = 37\<rparr> 2)
       = mpz_tdiv_q (- 4625) 100
   \<and> mpz_tdiv_q (- 4625) 100 = - 46"
  using bc_multiply_truncates [of "\<lparr>n_scale = 2, n_value = - 125\<rparr>" "\<lparr>n_scale = 2, n_value = 37\<rparr>" 2]
  by (simp add: mpz_tdiv_q_def)

subsection \<open>Division with remainder\<close>






subsection \<open>Conversion to a machine integer\<close>

text \<open>
  Claim C9.  \<open>bc_num2long\<close> returns the integer part of its argument, truncated
  towards zero, whenever that integer fits in a \<open>long\<close>, except that it returns 0
  when the integer part is \<open>- LONG_MAX - 1\<close>, although that value fits; for an
  integer part that does not fit it returns 0 as well.  So a return of 0 does not tell
  zero, overflow and the most negative \<open>long\<close> apart.
\<close>

theorem bc_num2long_spec:
  assumes "0 \<le> n_scale n"
  shows "bc_num2long n =
     (let ip = mpz_tdiv_q (n_value n) (10 ^ nat (n_scale n))
      in if mpz_fits_slong_p ip \<and> ip \<noteq> - LONG_MAX - 1 then ip else 0)"
  using assms by (cases "n_scale n = 0") (auto simp: bc_num2long_def Let_def)

text \<open>\<open>- 123.45\<close> gives \<open>- 123\<close>; zero, \<open>LONG_MAX + 1\<close> and \<open>- LONG_MAX - 1\<close> all give 0.\<close>

theorem bc_num2long_spec_witness:
  "bc_num2long \<lparr>n_scale = 2, n_value = - 12345\<rparr> = - 123
   \<and> bc_num2long \<lparr>n_scale = 0, n_value = 0\<rparr> = 0
   \<and> bc_num2long \<lparr>n_scale = 0, n_value = LONG_MAX + 1\<rparr> = 0
   \<and> bc_num2long \<lparr>n_scale = 0, n_value = - LONG_MAX - 1\<rparr> = 0
   \<and> mpz_fits_slong_p (- LONG_MAX - 1)"
  using bc_num2long_spec [of "\<lparr>n_scale = 2, n_value = - 12345\<rparr>"]
    bc_num2long_spec [of "\<lparr>n_scale = 0, n_value = 0\<rparr>"]
    bc_num2long_spec [of "\<lparr>n_scale = 0, n_value = LONG_MAX + 1\<rparr>"]
    bc_num2long_spec [of "\<lparr>n_scale = 0, n_value = - LONG_MAX - 1\<rparr>"]
  by (simp add: mpz_tdiv_q_def mpz_fits_slong_p_def LONG_MAX_def)

subsection \<open>Square root\<close>

lemma sqrt_nat_bounds: "sqrt_nat n * sqrt_nat n \<le> n \<and> n < (sqrt_nat n + 1) * (sqrt_nat n + 1)"
proof (induction n rule: sqrt_nat.induct)
  case (1 n)
  show ?case
  proof (cases "n < 4")
    case True
    have eq: "sqrt_nat n = (if n = 0 then 0 else 1)"
      using True by (subst sqrt_nat.simps) simp
    show ?thesis using True unfolding eq by simp
  next
    case False
    define r0 where "r0 = sqrt_nat (n div 4)"
    have ih: "r0 * r0 \<le> n div 4" "n div 4 < (r0 + 1) * (r0 + 1)"
      using 1[OF False] by (simp_all add: r0_def)
    have lo: "(2 * r0) * (2 * r0) \<le> n"
    proof -
      have "(2 * r0) * (2 * r0) = 4 * (r0 * r0)" by simp
      also have "\<dots> \<le> 4 * (n div 4)" using ih(1) by simp
      also have "\<dots> \<le> n" by simp
      finally show ?thesis .
    qed
    have hi: "n < (2 * r0 + 1 + 1) * (2 * r0 + 1 + 1)"
    proof -
      have "n div 4 + 1 \<le> (r0 + 1) * (r0 + 1)" using ih(2) by simp
      then have "4 * (n div 4 + 1) \<le> 4 * ((r0 + 1) * (r0 + 1))" by (rule mult_le_mono2)
      moreover have "n < 4 * (n div 4 + 1)" by simp
      moreover have "4 * ((r0 + 1) * (r0 + 1)) = (2 * r0 + 1 + 1) * (2 * r0 + 1 + 1)"
        by (simp add: algebra_simps)
      ultimately show ?thesis by (simp only:)  
    qed
    have eq: "sqrt_nat n = (if (2 * r0 + 1) * (2 * r0 + 1) \<le> n then 2 * r0 + 1 else 2 * r0)"
      using False by (subst sqrt_nat.simps) (simp add: Let_def r0_def)
    show ?thesis
    proof (cases "(2 * r0 + 1) * (2 * r0 + 1) \<le> n")
      case True
      have "sqrt_nat n = 2 * r0 + 1" using True eq by (simp only: if_True)
      then show ?thesis using hi True by (simp only:)
    next
      case False
      have e: "sqrt_nat n = 2 * r0" using False eq by (simp only: if_False)
      from False have "n < (2 * r0 + 1) * (2 * r0 + 1)" by (simp only: not_le)
      then show ?thesis using lo unfolding e by (intro conjI)
    qed
  qed
qed

lemma mpz_sqrt_bounds:
  assumes "0 \<le> x"
  shows "0 \<le> mpz_sqrt x" "mpz_sqrt x * mpz_sqrt x \<le> x" "x < (mpz_sqrt x + 1) * (mpz_sqrt x + 1)"
proof -
  show "0 \<le> mpz_sqrt x" by (simp add: mpz_sqrt_def)
  have a: "int (sqrt_nat (nat x) * sqrt_nat (nat x)) \<le> int (nat x)"
    using sqrt_nat_bounds[of "nat x"] by (simp only: of_nat_le_iff)
  then show "mpz_sqrt x * mpz_sqrt x \<le> x" using assms by (simp add: mpz_sqrt_def)
  have b: "int (nat x) < int ((sqrt_nat (nat x) + 1) * (sqrt_nat (nat x) + 1))"
    using sqrt_nat_bounds[of "nat x"] by (simp only: of_nat_less_iff)
  then show "x < (mpz_sqrt x + 1) * (mpz_sqrt x + 1)" using assms by (simp add: mpz_sqrt_def algebra_simps)
qed


lemma bc_compare_zero:
  assumes "0 \<le> n_scale n"
  shows "bc_compare n zero_num = sgn (n_value n)"
  using assms
  by (auto simp: bc_compare_def bc_do_compare_def zero_num_def bc_new_num_def mpz_cmp_def Let_def sgn_if)

lemma bc_compare_one:
  assumes "0 \<le> n_scale n"
  shows "bc_compare n one_num = sgn (n_value n - 10 ^ nat (n_scale n))"
  using assms
  by (auto simp: bc_compare_def bc_do_compare_def one_num_def bc_new_num_def mpz_cmp_def Let_def sgn_if)

lemma bc_rat_eq_1:
  "bc_rat n = 1 \<longleftrightarrow> n_value n = 10 ^ nat (n_scale n)"
proof -
  have "bc_rat n = 1 \<longleftrightarrow> (of_int (n_value n) :: rat) = of_int (10 ^ nat (n_scale n))"
    by (auto simp: bc_rat_def)
  also have "\<dots> \<longleftrightarrow> n_value n = 10 ^ nat (n_scale n)" by (simp only: of_int_eq_iff)
  finally show ?thesis .
qed

lemma bc_rat_nonneg: "0 \<le> bc_rat n \<longleftrightarrow> 0 \<le> n_value n"
proof -
  have "\<not> (10::rat) ^ nat (n_scale n) \<le> 0" by (simp add: not_le)
  then have "0 \<le> bc_rat n \<longleftrightarrow> (0::rat) \<le> of_int (n_value n)"
    by (simp add: bc_rat_def zero_le_divide_iff)
  then show ?thesis by simp
qed

lemma bc_sqrt_general:
  assumes v: "0 < n_value n" and ne: "n_value n \<noteq> 10 ^ nat (n_scale n)"
    and ns: "0 \<le> n_scale n"
  shows "bc_sqrt n s = (1, \<lparr>n_scale = max s (n_scale n),
            n_value = mpz_sqrt (n_value n * 10 ^ nat (2 * max s (n_scale n) - n_scale n))\<rparr>)"
proof -
  have c0: "\<not> bc_compare n zero_num < 0" "bc_compare n zero_num \<noteq> 0"
    using v by (simp_all add: bc_compare_zero[OF ns])
  have c1: "bc_compare n one_num \<noteq> 0" using ne by (simp add: bc_compare_one[OF ns] sgn_if)
  have st: "n_scale n + 2 * (max s (n_scale n) - n_scale n) = 2 * max s (n_scale n) - n_scale n" by simp
  have ge: "0 \<le> 2 * max s (n_scale n) - n_scale n" using ns by (simp add: max_def)
  show ?thesis
    using c0 c1 ge
    by (cases "2 * max s (n_scale n) - n_scale n = 0")
       (simp_all add: bc_sqrt_def Let_def MAX_int_max bc_new_num_def st)
qed

lemma sqrt_scaled:
  fixes R v :: int and a b c :: nat
  assumes lo: "R * R \<le> v * 10 ^ a" and hi: "v * 10 ^ a < (R + 1) * (R + 1)"
    and ab: "a + b = 2 * c"
  shows "(of_int R / 10 ^ c :: rat)\<^sup>2 \<le> of_int v / 10 ^ b"
    and "of_int v / 10 ^ b < ((of_int R + 1) / 10 ^ c :: rat)\<^sup>2"
proof -
  have p: "((10::rat) ^ c)\<^sup>2 = 10 ^ a * 10 ^ b"
    by (simp add: power_add [symmetric] power_mult [symmetric] ab mult.commute)
  have vb: "of_int v / (10::rat) ^ b = of_int (v * 10 ^ a) / ((10::rat) ^ c)\<^sup>2"
    unfolding p by simp
  have "(of_int (R * R) :: rat) \<le> of_int (v * 10 ^ a)" using lo by (simp only: of_int_le_iff)
  then have "(of_int (R * R) :: rat) / (10 ^ c)\<^sup>2 \<le> of_int (v * 10 ^ a) / (10 ^ c)\<^sup>2"
    by (rule divide_right_mono) simp
  then show "(of_int R / 10 ^ c :: rat)\<^sup>2 \<le> of_int v / 10 ^ b"
    unfolding vb by (simp add: power_divide power2_eq_square)
  have "(of_int (v * 10 ^ a) :: rat) < of_int ((R + 1) * (R + 1))" using hi by (simp only: of_int_less_iff)
  then have "(of_int (v * 10 ^ a) :: rat) / (10 ^ c)\<^sup>2 < of_int ((R + 1) * (R + 1)) / (10 ^ c)\<^sup>2"
    by (rule divide_strict_right_mono) simp
  then show "of_int v / 10 ^ b < ((of_int R + 1) / 10 ^ c :: rat)\<^sup>2"
    unfolding vb by (simp add: power_divide power2_eq_square)
qed

text \<open>
  Claim C4, amended.  For every number \<open>n \<ge> 0\<close> and every scale \<open>s \<ge> 0\<close>,
  \<open>bc_sqrt\<close> returns 1 (true) and replaces the slot by a number \<open>r\<close> with
  \<open>r\<^sup>2 \<le> n < (r + 10\<^sup>-\<^sup>s)\<^sup>2\<close> over the rationals.  The stored scale of
  \<open>r\<close> is \<open>max s n.scale\<close>, except when \<open>n\<close> equals 0 or 1: then the shared
  constant \<open>_zero_\<close> or \<open>_one_\<close> is installed, whose scale is 0.
\<close>

theorem bc_sqrt_amended:
  assumes n0: "0 \<le> bc_rat n" and s0: "0 \<le> s" and ns: "0 \<le> n_scale n"
  shows "\<exists>r. bc_sqrt n s = (1, r)
      \<and> n_scale r = (if bc_rat n = 0 \<or> bc_rat n = 1 then 0 else max s (n_scale n))
      \<and> (bc_rat r)\<^sup>2 \<le> bc_rat n \<and> bc_rat n < (bc_rat r + 1 / 10 ^ nat s)\<^sup>2"
proof -
  have v0: "0 \<le> n_value n" using n0 by (simp add: bc_rat_nonneg)
  have z: "bc_rat n = 0 \<longleftrightarrow> n_value n = 0" by (simp add: bc_rat_def)
  consider (zero) "n_value n = 0" | (one) "n_value n \<noteq> 0" "n_value n = 10 ^ nat (n_scale n)"
    | (gen) "n_value n \<noteq> 0" "n_value n \<noteq> 10 ^ nat (n_scale n)" by blast
  then show ?thesis
  proof cases
    case zero
    have "bc_sqrt n s = (1, zero_num)"
      using zero by (simp add: bc_sqrt_def Let_def bc_compare_zero[OF ns])
    moreover have "bc_rat zero_num = 0" "n_scale zero_num = 0"
      by (simp_all add: bc_rat_def zero_num_def bc_new_num_def)
    ultimately show ?thesis using zero z by simp
  next
    case one
    have "bc_sqrt n s = (1, one_num)"
      using one v0 by (simp add: bc_sqrt_def Let_def bc_compare_zero[OF ns] bc_compare_one[OF ns])
    moreover have "bc_rat one_num = 1" "n_scale one_num = 0"
      by (simp_all add: bc_rat_def one_num_def bc_new_num_def)
    moreover have "bc_rat n = 1" using one by (simp add: bc_rat_eq_1)
    moreover have "(1::rat) < (1 + 1 / 10 ^ nat s)\<^sup>2"
      by (rule one_less_power) simp_all
    ultimately show ?thesis by simp
  next
    case gen
    define c where "c = max s (n_scale n)"
    define a where "a = nat (2 * c - n_scale n)"
    define R where "R = mpz_sqrt (n_value n * 10 ^ a)"
    define r where "r = \<lparr>n_scale = c, n_value = R\<rparr>"
    have vpos: "0 < n_value n" using gen v0 by simp
    have eq: "bc_sqrt n s = (1, r)"
      using bc_sqrt_general[OF vpos gen(2) ns, of s] by (simp add: r_def R_def a_def c_def)
    have c0: "0 \<le> c" "s \<le> c" "n_scale n \<le> c" using ns by (auto simp: c_def)
    have ab: "a + nat (n_scale n) = 2 * nat c" using c0 ns by (simp add: a_def)
    have x0: "0 \<le> n_value n * 10 ^ a" using v0 by simp
    have R0: "0 \<le> R" unfolding R_def by (rule mpz_sqrt_bounds(1)[OF x0])
    have lo: "R * R \<le> n_value n * 10 ^ a" unfolding R_def by (rule mpz_sqrt_bounds(2)[OF x0])
    have hi: "n_value n * 10 ^ a < (R + 1) * (R + 1)" unfolding R_def by (rule mpz_sqrt_bounds(3)[OF x0])
    have rr: "bc_rat r = of_int R / 10 ^ nat c" by (simp add: bc_rat_def r_def)
    have nrat: "bc_rat n = of_int (n_value n) / 10 ^ nat (n_scale n)" by (simp add: bc_rat_def)
    have below: "(bc_rat r)\<^sup>2 \<le> bc_rat n"
      unfolding rr nrat by (rule sqrt_scaled(1)[OF lo hi ab])
    have above: "bc_rat n < ((of_int R + 1) / 10 ^ nat c)\<^sup>2"
      unfolding nrat by (rule sqrt_scaled(2)[OF lo hi ab])
    have step: "(1::rat) / 10 ^ nat c \<le> 1 / 10 ^ nat s"
      using c0 s0 by (intro divide_left_mono power_increasing) simp_all
    have "((of_int R + 1) / 10 ^ nat c :: rat) = bc_rat r + 1 / 10 ^ nat c"
      by (simp add: rr add_divide_distrib)
    also have "\<dots> \<le> bc_rat r + 1 / 10 ^ nat s" using step by simp
    finally have le: "((of_int R + 1) / 10 ^ nat c :: rat) \<le> bc_rat r + 1 / 10 ^ nat s" .
    have nonneg: "(0::rat) \<le> (of_int R + 1) / 10 ^ nat c" using R0 by simp
    have "((of_int R + 1) / 10 ^ nat c :: rat)\<^sup>2 \<le> (bc_rat r + 1 / 10 ^ nat s)\<^sup>2"
      by (rule power_mono[OF le nonneg])
    with above have up: "bc_rat n < (bc_rat r + 1 / 10 ^ nat s)\<^sup>2" by simp
    have nz: "bc_rat n \<noteq> 0" "bc_rat n \<noteq> 1" using gen by (simp_all add: z bc_rat_eq_1)
    have "n_scale r = c" by (simp add: r_def)
    then show ?thesis using eq below up nz by (simp add: c_def)
  qed
qed

text \<open>\<open>sqrt 2\<close> at scale 2 is \<open>1.41\<close>; \<open>sqrt 1.00\<close> at scale 3 is the constant 1 of scale 0.\<close>

theorem bc_sqrt_amended_witness:
  "0 \<le> bc_rat \<lparr>n_scale = 0, n_value = 2\<rparr> \<and> (0::int) \<le> 2
   \<and> (\<exists>r. bc_sqrt \<lparr>n_scale = 0, n_value = 2\<rparr> 2 = (1, r) \<and> n_scale r = 2
          \<and> (bc_rat r)\<^sup>2 \<le> 2 \<and> 2 < (bc_rat r + 1 / 100)\<^sup>2)
   \<and> (\<exists>r. bc_sqrt \<lparr>n_scale = 2, n_value = 100\<rparr> 3 = (1, r) \<and> n_scale r = 0)"
  using bc_sqrt_amended [of "\<lparr>n_scale = 0, n_value = 2\<rparr>" 2]
    bc_sqrt_amended [of "\<lparr>n_scale = 2, n_value = 100\<rparr>" 3]
  by (auto simp: bc_rat_def)

text \<open>
  Claim C4 as stated fails: the square root of 1 at scale 3 is stored with scale 0, not
  with \<open>max 3 0 = 3\<close>.
\<close>

theorem bc_sqrt_scale_counterexample:
  "fst (bc_sqrt \<lparr>n_scale = 0, n_value = 1\<rparr> 3) = 1
   \<and> n_scale (snd (bc_sqrt \<lparr>n_scale = 0, n_value = 1\<rparr> 3)) = 0
   \<and> n_scale (snd (bc_sqrt \<lparr>n_scale = 0, n_value = 1\<rparr> 3))
       \<noteq> max 3 (n_scale \<lparr>n_scale = 0, n_value = 1\<rparr>)"
  by (simp add: bc_sqrt_def bc_compare_def bc_do_compare_def zero_num_def one_num_def
      bc_new_num_def mpz_cmp_def Let_def)

subsection \<open>Decimal digits\<close>

lemma digit_cases: "d < 10 \<Longrightarrow> d = 0 \<or> d = 1 \<or> d = 2 \<or> d = 3 \<or> d = 4 \<or> d = 5 \<or> d = 6 \<or> d = 7 \<or> d = 8 \<or> d = (9::nat)"
  by arith

lemma digit_char_props:
  assumes "d < 10"
  shows "isdigit (digit_char d)" "digit_val (digit_char d) = d" "digit_char d = CHR ''0'' \<longleftrightarrow> d = 0"
  using digit_cases[OF assms] by (auto simp: isdigit_def digit_char_def digit_val_def)

lemma not_digit [simp]:
  "\<not> isdigit (CHR ''.'')" "\<not> isdigit (CHR ''-'')" "\<not> isdigit (CHR ''+'')" "isdigit (CHR ''0'')"
  by (simp_all add: isdigit_def)

lemma dec_nat_digits: "list_all isdigit (dec_nat n)"
proof (induction n rule: dec_nat.induct)
  case (1 n)
  show ?case
  proof (cases "n < 10")
    case True
    then show ?thesis by (subst dec_nat.simps) (simp add: digit_char_props)
  next
    case False
    then show ?thesis using 1 by (subst dec_nat.simps) (simp add: digit_char_props)
  qed
qed

lemma dec_nat_nonempty: "dec_nat n \<noteq> []"
  by (subst dec_nat.simps) simp

lemma dec_nat_hd: "0 < n \<Longrightarrow> hd (dec_nat n) \<noteq> CHR ''0''"
proof (induction n rule: dec_nat.induct)
  case (1 n)
  show ?case
  proof (cases "n < 10")
    case True
    then show ?thesis using 1(2) by (subst dec_nat.simps) (simp add: digit_char_props)
  next
    case False
    then have "0 < n div 10" by simp
    then have "hd (dec_nat (n div 10)) \<noteq> CHR ''0''" using 1(1) False by simp
    then show ?thesis using False by (subst dec_nat.simps) (simp add: dec_nat_nonempty)
  qed
qed

lemma dec_nat_0: "dec_nat 0 = ''0''"
  by (subst dec_nat.simps) (simp add: digit_char_def)

lemma dec_val_snoc: "dec_val (ds @ [c]) = 10 * dec_val ds + digit_val c"
  by (simp add: dec_val_def)

lemma dec_val_dec_nat: "dec_val (dec_nat n) = n"
proof (induction n rule: dec_nat.induct)
  case (1 n)
  show ?case
  proof (cases "n < 10")
    case True
    then show ?thesis by (subst dec_nat.simps) (simp add: dec_val_def digit_char_props)
  next
    case False
    then have "dec_val (dec_nat (n div 10)) = n div 10" using 1 by simp
    then show ?thesis using False
      by (subst dec_nat.simps) (simp add: dec_val_snoc digit_char_props)
  qed
qed

lemma foldl_dec_zero: "foldl (\<lambda>acc c. 10 * acc + digit_val c) 0 (replicate k (CHR ''0'')) = 0"
  by (induction k) (simp_all add: digit_val_def)

lemma dec_val_zeros: "dec_val (replicate k (CHR ''0'') @ ds) = dec_val ds"
  by (simp add: dec_val_def foldl_dec_zero)

lemma takeWhile_all: "list_all P xs \<Longrightarrow> takeWhile P xs = xs"
  by (induction xs) auto

lemma dropWhile_all: "list_all P xs \<Longrightarrow> dropWhile P xs = []"
  by (induction xs) auto

lemma takeWhile_digits_dot: "list_all isdigit xs \<Longrightarrow> takeWhile isdigit (xs @ CHR ''.'' # ys) = xs"
  by (induction xs) auto

lemma dropWhile_digits_dot: "list_all isdigit xs \<Longrightarrow> dropWhile isdigit (xs @ CHR ''.'' # ys) = CHR ''.'' # ys"
  by (induction xs) auto

lemma gmp_sscanf_digits:
  assumes "list_all isdigit ds" "ds \<noteq> []"
  shows "gmp_sscanf_Zd ds old = int (dec_val ds)" "gmp_sscanf_Zd (CHR ''-'' # ds) old = - int (dec_val ds)"
proof -
  have "hd ds \<noteq> CHR ''-''" using assms by (cases ds) auto
  then show "gmp_sscanf_Zd ds old = int (dec_val ds)"
    using assms by (simp add: gmp_sscanf_Zd_def takeWhile_all)
  show "gmp_sscanf_Zd (CHR ''-'' # ds) old = - int (dec_val ds)"
    using assms by (simp add: gmp_sscanf_Zd_def takeWhile_all)
qed

text \<open>What the parser does on a well-formed text with a decimal point.\<close>

lemma str2num_dot:
  assumes ip: "list_all isdigit ip" and lead: "ip = [] \<or> hd ip \<noteq> CHR ''0''"
    and fp: "list_all isdigit fp"
  shows "str2num_count (ip @ CHR ''.'' # fp) = (int (length ip), int (length fp), [])"
    and "str2num_count (CHR ''-'' # ip @ CHR ''.'' # fp) = (int (length ip), int (length fp), [])"
    and "str2num_copy (ip @ CHR ''.'' # fp) k = ip @ take (nat k) fp"
    and "str2num_copy (CHR ''-'' # ip @ CHR ''.'' # fp) k = CHR ''-'' # ip @ take (nat k) fp"
proof -
  let ?s = "ip @ CHR ''.'' # fp"
  have h: "?s \<noteq> []" "hd ?s \<noteq> CHR ''+''" "hd ?s \<noteq> CHR ''-''"
    using ip by (cases ip; auto)+
  have f1: "\<not> at_char ?s (CHR ''+'')" "\<not> at_char ?s (CHR ''-'')"
    using h by (simp_all add: at_char_def)
  have f2: "dropWhile (\<lambda>c. c = CHR ''0'') ?s = ?s"
    using lead by (cases ip) auto
  have f3: "takeWhile isdigit ?s = ip" "dropWhile isdigit ?s = CHR ''.'' # fp"
    using ip by (simp_all add: takeWhile_digits_dot dropWhile_digits_dot)
  have f4: "takeWhile isdigit fp = fp" "dropWhile isdigit fp = []"
    using fp by (simp_all add: takeWhile_all dropWhile_all)
  have f5: "at_char (CHR ''.'' # fp) (CHR ''.'')" "at_char (CHR ''-'' # ?s) (CHR ''-'')"
     "\<not> at_char (CHR ''-'' # ?s) (CHR ''+'')"
    by (simp_all add: at_char_def)
  show "str2num_count ?s = (int (length ip), int (length fp), [])"
    unfolding str2num_count_def Let_def by (simp add: f1 f2 f3 f4 f5)
  show "str2num_count (CHR ''-'' # ?s) = (int (length ip), int (length fp), [])"
    unfolding str2num_count_def Let_def by (simp add: f1 f2 f3 f4 f5)
  show "str2num_copy ?s k = ip @ take (nat k) fp"
    unfolding str2num_copy_def Let_def by (simp add: f1 f2 f3 f4 f5)
  show "str2num_copy (CHR ''-'' # ?s) k = CHR ''-'' # ip @ take (nat k) fp"
    unfolding str2num_copy_def Let_def by (simp add: f1 f2 f3 f4 f5)
qed

lemma bc_str2num_dot:
  assumes ip: "list_all isdigit ip" and lead: "ip = [] \<or> hd ip \<noteq> CHR ''0''"
    and fp: "list_all isdigit fp" and ne: "ip @ fp \<noteq> []"
  shows "bc_str2num (ip @ CHR ''.'' # fp) scale =
           \<lparr>n_scale = min (int (length fp)) scale,
            n_value = gmp_sscanf_Zd (ip @ take (nat (min (int (length fp)) scale)) fp) 0\<rparr>"
    and "bc_str2num (CHR ''-'' # ip @ CHR ''.'' # fp) scale =
           \<lparr>n_scale = min (int (length fp)) scale,
            n_value = gmp_sscanf_Zd (CHR ''-'' # ip @ take (nat (min (int (length fp)) scale)) fp) 0\<rparr>"
proof -
  have f6: "int (length ip) + int (length fp) \<noteq> 0" using ne by (cases ip; cases fp; simp)
  show "bc_str2num (ip @ CHR ''.'' # fp) scale =
           \<lparr>n_scale = min (int (length fp)) scale,
            n_value = gmp_sscanf_Zd (ip @ take (nat (min (int (length fp)) scale)) fp) 0\<rparr>"
    using f6 by (simp add: bc_str2num_def str2num_dot[OF ip lead fp] MIN_int_min bc_new_num_def Let_def)
  show "bc_str2num (CHR ''-'' # ip @ CHR ''.'' # fp) scale =
           \<lparr>n_scale = min (int (length fp)) scale,
            n_value = gmp_sscanf_Zd (CHR ''-'' # ip @ take (nat (min (int (length fp)) scale)) fp) 0\<rparr>"
    using f6 by (simp add: bc_str2num_def str2num_dot[OF ip lead fp] MIN_int_min bc_new_num_def Let_def)
qed

text \<open>The same for an integer text.\<close>

lemma str2num_nodot:
  assumes ip: "list_all isdigit ip" and lead: "hd ip \<noteq> CHR ''0''" and ne: "ip \<noteq> []"
  shows "str2num_count ip = (int (length ip), 0, [])"
    and "str2num_count (CHR ''-'' # ip) = (int (length ip), 0, [])"
    and "str2num_copy ip k = ip"
    and "str2num_copy (CHR ''-'' # ip) k = CHR ''-'' # ip"
proof -
  have h: "hd ip \<noteq> CHR ''+''" "hd ip \<noteq> CHR ''-''"
    using ip ne by (cases ip; auto)+
  have f1: "\<not> at_char ip (CHR ''+'')" "\<not> at_char ip (CHR ''-'')" "\<not> at_char [] (CHR ''.'')"
    using h by (simp_all add: at_char_def)
  have f2: "dropWhile (\<lambda>c. c = CHR ''0'') ip = ip"
    using lead ne by (cases ip) auto
  have f3: "takeWhile isdigit ip = ip" "dropWhile isdigit ip = []"
    using ip by (simp_all add: takeWhile_all dropWhile_all)
  have f5: "at_char (CHR ''-'' # ip) (CHR ''-'')" "\<not> at_char (CHR ''-'' # ip) (CHR ''+'')"
    by (simp_all add: at_char_def)
  show "str2num_count ip = (int (length ip), 0, [])"
    unfolding str2num_count_def Let_def by (simp add: f1 f2 f3 f5)
  show "str2num_count (CHR ''-'' # ip) = (int (length ip), 0, [])"
    unfolding str2num_count_def Let_def by (simp add: f1 f2 f3 f5)
  show "str2num_copy ip k = ip"
    unfolding str2num_copy_def Let_def by (simp add: f1 f2 f3 f5)
  show "str2num_copy (CHR ''-'' # ip) k = CHR ''-'' # ip"
    unfolding str2num_copy_def Let_def by (simp add: f1 f2 f3 f5)
qed

lemma bc_str2num_nodot:
  assumes ip: "list_all isdigit ip" and lead: "hd ip \<noteq> CHR ''0''" and ne: "ip \<noteq> []"
  shows "bc_str2num ip scale = \<lparr>n_scale = min 0 scale, n_value = gmp_sscanf_Zd ip 0\<rparr>"
    and "bc_str2num (CHR ''-'' # ip) scale =
           \<lparr>n_scale = min 0 scale, n_value = gmp_sscanf_Zd (CHR ''-'' # ip) 0\<rparr>"
  using ne by (simp_all add: bc_str2num_def str2num_nodot[OF ip lead ne] MIN_int_min bc_new_num_def Let_def)

lemma bc_str2num_0: "bc_str2num ''0'' scale = zero_num"
proof -
  have "str2num_count ''0'' = (0, 0, [])"
    unfolding str2num_count_def Let_def by (simp add: at_char_def)
  then show ?thesis by (simp add: bc_str2num_def)
qed

lemma str2num_count_nonneg: "0 \<le> fst (snd (str2num_count str))"
  unfolding str2num_count_def Let_def by simp

lemma bc_str2num_scale_nonneg: "0 \<le> scale \<Longrightarrow> 0 \<le> n_scale (bc_str2num str scale)"
  using str2num_count_nonneg[of str]
  by (cases "str2num_count str")
     (simp add: bc_str2num_def zero_num_def bc_new_num_def MIN_int_min Let_def)

lemma bc_num2str_shape:
  assumes "0 \<le> n_scale n"
  shows "bc_num2str n =
     (if n_value n < 0 then ''-'' else []) @
     (if int (length (digits_of n)) \<ge> n_scale n
      then take (length (digits_of n) - nat (n_scale n)) (digits_of n) @
           (if n_scale n > 0
            then CHR ''.'' # drop (length (digits_of n) - nat (n_scale n)) (digits_of n) else [])
      else CHR ''.'' # replicate (nat (n_scale n) - length (digits_of n)) (CHR ''0'') @ digits_of n)"
proof -
  define D where "D = digits_of n"
  have neg: "bc_is_neg n \<longleftrightarrow> n_value n < 0" by (simp add: bc_is_neg_def sgn_if)
  have p: "gmp_printf_Zd (n_value n) = (if n_value n < 0 then CHR ''-'' # D else D)"
    by (simp add: gmp_printf_Zd_def D_def digits_of_def abs_if)
  have k: "nat (int (length D) - n_scale n) = length D - nat (n_scale n)"
    using assms by simp
  have k2: "nat (n_scale n - int (length D)) = nat (n_scale n) - length D"
    using assms by simp
  have t: "int (length D) \<ge> n_scale n \<Longrightarrow>
      take (nat (n_scale n)) (drop (length D - nat (n_scale n)) D) = drop (length D - nat (n_scale n)) D"
    using assms by simp
  show ?thesis
    unfolding bc_num2str_def Let_def D_def [symmetric]
    using t by (simp add: neg p k k2)
qed

lemma sscanf_digits_of:
  assumes "list_all isdigit zs" "dec_val (zs @ digits_of n) = dec_val (digits_of n)"
  shows "gmp_sscanf_Zd ((if n_value n < 0 then ''-'' else []) @ zs @ digits_of n) old = n_value n"
proof -
  have d: "list_all isdigit (zs @ digits_of n)" "zs @ digits_of n \<noteq> []"
    using assms(1) by (simp_all add: digits_of_def dec_nat_digits dec_nat_nonempty)
  have "dec_val (digits_of n) = nat \<bar>n_value n\<bar>" by (simp add: digits_of_def dec_val_dec_nat)
  then have v: "int (dec_val (zs @ digits_of n)) = \<bar>n_value n\<bar>"
    by (simp add: assms(2))
  show ?thesis
    using gmp_sscanf_digits[OF d, of old] v by (cases "n_value n < 0") simp_all
qed

lemma bc_roundtrip:
  assumes s: "0 \<le> n_scale n"
  shows "bc_str2num (bc_num2str n) (n_scale n) = n"
proof -
  define D where "D = digits_of n"
  define L where "L = length D"
  define k where "k = nat (n_scale n)"
  have Dd: "list_all isdigit D" "D \<noteq> []" by (simp_all add: D_def digits_of_def dec_nat_digits dec_nat_nonempty)
  have L1: "1 \<le> L" using Dd(2) by (cases D) (simp_all add: L_def)
  have ks: "int k = n_scale n" using s by (simp add: k_def)
  have n_eq: "\<And>v. v = n_value n \<Longrightarrow> \<lparr>n_scale = n_scale n, n_value = v\<rparr> = n" by simp
  have val0: "gmp_sscanf_Zd ((if n_value n < 0 then ''-'' else []) @ D) 0 = n_value n"
    using sscanf_digits_of[of "[]" n 0] by (simp add: D_def)
  consider (int) "k = 0" | (mixed) "0 < k" "k \<le> L" | (small) "L < k" by linarith
  then show ?thesis
  proof cases
    case int
    then have s0: "n_scale n = 0" using ks by simp
    have shape: "bc_num2str n = (if n_value n < 0 then ''-'' else []) @ D"
      using bc_num2str_shape[OF s] by (simp add: s0 D_def)
    show ?thesis
    proof (cases "n_value n = 0")
      case True
      then have "D = ''0''" by (simp add: D_def digits_of_def dec_nat_0)
      then show ?thesis using True s0 by (simp add: shape bc_str2num_0 zero_num_def bc_new_num_def)
    next
      case False
      then have "hd D \<noteq> CHR ''0''" by (simp add: D_def digits_of_def dec_nat_hd)
      from bc_str2num_nodot[OF Dd(1) this Dd(2), of 0] val0
      show ?thesis by (cases "n_value n < 0") (simp_all add: shape s0 n_eq)
    qed
  next
    case mixed
    define ip where "ip = take (L - k) D"
    define fp where "fp = drop (L - k) D"
    have shape: "bc_num2str n = (if n_value n < 0 then ''-'' else []) @ ip @ CHR ''.'' # fp"
      using bc_num2str_shape[OF s] mixed ks
      by (simp add: D_def [symmetric] L_def [symmetric] k_def [symmetric] ip_def fp_def)
    have ipd: "list_all isdigit ip" "list_all isdigit fp"
      using Dd(1) by (auto simp: ip_def fp_def list_all_iff dest: in_set_takeD in_set_dropD)
    have len: "int (length fp) = n_scale n" using mixed ks by (simp add: fp_def L_def)
    have cat: "ip @ fp = D" by (simp add: ip_def fp_def)
    have ne: "ip @ fp \<noteq> []" using cat Dd(2) by simp
    have lead: "ip = [] \<or> hd ip \<noteq> CHR ''0''"
    proof (cases "ip = []")
      case False
      then have lk: "k < L" by (cases "k < L") (simp_all add: ip_def L_def)
      have "n_value n \<noteq> 0"
      proof
        assume "n_value n = 0"
        then have "D = ''0''" by (simp add: D_def digits_of_def dec_nat_0)
        then show False using lk mixed by (simp add: L_def)
      qed
      then have "hd D \<noteq> CHR ''0''" by (simp add: D_def digits_of_def dec_nat_hd)
      moreover have "hd ip = hd D" using lk by (simp add: ip_def hd_take)
      ultimately show ?thesis by simp
    qed simp
    have tk: "take (nat (n_scale n)) fp = fp" using len by simp
    have e: "bc_str2num (ip @ CHR ''.'' # fp) (n_scale n) =
               \<lparr>n_scale = n_scale n, n_value = gmp_sscanf_Zd D 0\<rparr>"
        "bc_str2num (CHR ''-'' # ip @ CHR ''.'' # fp) (n_scale n) =
               \<lparr>n_scale = n_scale n, n_value = gmp_sscanf_Zd (CHR ''-'' # D) 0\<rparr>"
      using bc_str2num_dot[OF ipd(1) lead ipd(2) ne, of "n_scale n"]
      by (simp_all add: len tk cat)
    show ?thesis using val0
      by (cases "n_value n < 0") (simp_all add: shape e n_eq)
  next
    case small
    define fp where "fp = replicate (k - L) (CHR ''0'') @ D"
    have shape: "bc_num2str n = (if n_value n < 0 then ''-'' else []) @ [] @ CHR ''.'' # fp"
      using bc_num2str_shape[OF s] small ks
      by (simp add: D_def [symmetric] L_def [symmetric] k_def [symmetric] fp_def)
    have fpd: "list_all isdigit fp" using Dd(1) by (auto simp: fp_def list_all_iff)
    have len: "int (length fp) = n_scale n" using small ks by (simp add: fp_def L_def)
    have ne: "[] @ fp \<noteq> []" using Dd(2) by (simp add: fp_def)
    have tk: "take (nat (n_scale n)) fp = fp" using len by simp
    have val: "gmp_sscanf_Zd ((if n_value n < 0 then ''-'' else []) @ fp) 0 = n_value n"
      unfolding fp_def D_def
      by (rule sscanf_digits_of) (simp_all add: dec_val_zeros list_all_iff)
    have e: "bc_str2num (CHR ''.'' # fp) (n_scale n) =
               \<lparr>n_scale = n_scale n, n_value = gmp_sscanf_Zd fp 0\<rparr>"
        "bc_str2num (CHR ''-'' # CHR ''.'' # fp) (n_scale n) =
               \<lparr>n_scale = n_scale n, n_value = gmp_sscanf_Zd (CHR ''-'' # fp) 0\<rparr>"
      using bc_str2num_dot[of "[]" fp "n_scale n"] fpd ne
      by (simp_all add: len tk)
    show ?thesis using val
      by (cases "n_value n < 0") (simp_all add: shape e n_eq)
  qed
qed

text \<open>The definitions that evaluate a conversion on a given text.\<close>

lemmas text_eval = at_char_def isdigit_def digit_char_def digit_val_def dec_val_def
  gmp_printf_Zd_def gmp_sscanf_Zd_def bc_is_neg_def MIN_int_def bc_new_num_def zero_num_def

text \<open>
  Claim C5, amended.  For every number \<open>n\<close>, \<open>bc_num2str\<close> writes a minus sign
  if \<open>n\<close> is negative, then the integer digits \<open>ip\<close>, and, when \<open>n.scale > 0\<close>, a
  decimal point and exactly \<open>n.scale\<close> fraction digits \<open>fp\<close>, padded with zeros on
  the left when the stored integer has fewer digits than \<open>n.scale\<close>.  The integer
  digits are the digits of the stored integer beyond its last \<open>n.scale\<close> ones: there
  is none when it has at most \<open>n.scale\<close> digits.
\<close>

theorem bc_num2str_format:
  assumes "0 \<le> n_scale n"
  shows "\<exists>ip fp.
      bc_num2str n = (if n_value n < 0 then ''-'' else []) @ ip
                       @ (if n_scale n > 0 then CHR ''.'' # fp else [])
    \<and> list_all isdigit ip \<and> list_all isdigit fp
    \<and> int (length fp) = n_scale n
    \<and> length ip = length (digits_of n) - nat (n_scale n)
    \<and> ip @ fp = replicate (nat (n_scale n) - length (digits_of n)) (CHR ''0'') @ digits_of n"
proof -
  define D where "D = digits_of n"
  define k where "k = nat (n_scale n)"
  define sg where "sg = (if n_value n < 0 then ''-'' else [])"
  have Dd: "list_all isdigit D" by (simp add: D_def digits_of_def dec_nat_digits)
  have ks: "n_scale n = int k" using assms by (simp add: k_def)
  have shape: "bc_num2str n =
     sg @ (if k \<le> length D
      then take (length D - k) D @ (if 0 < k then CHR ''.'' # drop (length D - k) D else [])
      else CHR ''.'' # replicate (k - length D) (CHR ''0'') @ D)"
    unfolding bc_num2str_shape[OF assms] D_def [symmetric] sg_def [symmetric] ks by simp
  have goal: "\<exists>ip fp.
      bc_num2str n = sg @ ip @ (if 0 < k then CHR ''.'' # fp else [])
    \<and> list_all isdigit ip \<and> list_all isdigit fp
    \<and> length fp = k \<and> length ip = length D - k
    \<and> ip @ fp = replicate (k - length D) (CHR ''0'') @ D"
  proof (cases "k \<le> length D")
    case True
    let ?ip = "take (length D - k) D" and ?fp = "drop (length D - k) D"
    have d: "list_all isdigit ?ip" "list_all isdigit ?fp"
      using Dd by (auto simp: list_all_iff dest: in_set_takeD in_set_dropD)
    have l: "length ?fp = k" "length ?ip = length D - k" using True by simp_all
    have c: "?ip @ ?fp = replicate (k - length D) (CHR ''0'') @ D" using True by simp
    have e: "bc_num2str n = sg @ ?ip @ (if 0 < k then CHR ''.'' # ?fp else [])"
      using True by (simp add: shape)
    show ?thesis using d l c e by blast
  next
    case False
    let ?fp = "replicate (k - length D) (CHR ''0'') @ D"
    have d: "list_all isdigit []" "list_all isdigit ?fp" using Dd by (auto simp: list_all_iff)
    have l: "length ?fp = k" "length ([]::string) = length D - k" using False by simp_all
    have c: "[] @ ?fp = replicate (k - length D) (CHR ''0'') @ D" by simp
    have e: "bc_num2str n = sg @ [] @ (if 0 < k then CHR ''.'' # ?fp else [])"
      using False by (simp add: shape)
    show ?thesis using d l c e by blast
  qed
  have k0: "(0 < n_scale n) = (0 < k)" "nat (n_scale n) = k" by (simp_all add: ks)
  have lk: "\<And>fp::string. (int (length fp) = n_scale n) = (length fp = k)" by (simp add: ks)
  show ?thesis
    unfolding D_def [symmetric] sg_def [symmetric] k0 lk by (rule goal)
qed

text \<open>\<open>- 0.042\<close> is written \<open>-.042\<close>: no integer digit, one zero of padding.\<close>

theorem bc_num2str_format_witness:
  "(0::int) \<le> n_scale \<lparr>n_scale = 3, n_value = - 42\<rparr>
   \<and> bc_num2str \<lparr>n_scale = 3, n_value = - 42\<rparr> = ''-.042''
   \<and> (\<exists>ip fp. ''-.042'' = ''-'' @ ip @ CHR ''.'' # fp \<and> list_all isdigit ip \<and> list_all isdigit fp
         \<and> length fp = 3 \<and> length ip = 0 \<and> ip @ fp = ''042'')"
proof -
  have e: "bc_num2str \<lparr>n_scale = 3, n_value = - 42\<rparr> = ''-.042''"
    unfolding bc_num2str_def Let_def by (simp add: text_eval dec_nat.simps)
  have d: "digits_of \<lparr>n_scale = 3, n_value = - 42\<rparr> = ''42''"
    by (simp add: digits_of_def dec_nat.simps digit_char_def)
  show ?thesis
    using bc_num2str_format [of "\<lparr>n_scale = 3, n_value = - 42\<rparr>"]
    by (simp add: e d)
qed

text \<open>
  Claim C5 as stated fails: \<open>0.5\<close> (scale 1) is written \<open>.5\<close>, with no integer
  digit before the decimal point.
\<close>

theorem bc_num2str_no_integer_digit_counterexample:
  "bc_num2str \<lparr>n_scale = 1, n_value = 5\<rparr> = ''.5''
   \<and> \<not> isdigit (hd (bc_num2str \<lparr>n_scale = 1, n_value = 5\<rparr>))"
proof -
  have e: "bc_num2str \<lparr>n_scale = 1, n_value = 5\<rparr> = ''.5''"
    unfolding bc_num2str_def Let_def by (simp add: text_eval dec_nat.simps)
  show ?thesis by (simp add: e)
qed

text \<open>
  Claim C7.  For every number \<open>n\<close> that \<open>bc_str2num\<close> produces (from any text, at
  any scale \<open>\<ge> 0\<close>), reading the text \<open>bc_num2str n\<close> back at the scale of \<open>n\<close>
  gives \<open>n\<close> again: the same stored integer and the same stored scale.
\<close>

theorem bc_str2num_num2str_roundtrip:
  assumes "0 \<le> scale" and "n = bc_str2num str scale"
  shows "bc_str2num (bc_num2str n) (n_scale n) = n"
  using assms bc_roundtrip [of n] bc_str2num_scale_nonneg [of scale str] by simp

text \<open>\<open>-0.0512\<close> read at scale 2 is \<open>- 0.05\<close>, written \<open>-.05\<close>, read back as \<open>- 0.05\<close>.\<close>

theorem bc_str2num_num2str_roundtrip_witness:
  "(0::int) \<le> 2
   \<and> bc_str2num ''-0.0512'' 2 = \<lparr>n_scale = 2, n_value = - 5\<rparr>
   \<and> bc_num2str \<lparr>n_scale = 2, n_value = - 5\<rparr> = ''-.05''
   \<and> bc_str2num ''-.05'' 2 = \<lparr>n_scale = 2, n_value = - 5\<rparr>"
proof -
  have c: "str2num_count ''-0.0512'' = (0, 4, [])"
    unfolding str2num_count_def Let_def by (simp add: text_eval)
  have y: "str2num_copy ''-0.0512'' 2 = ''-05''"
    unfolding str2num_copy_def Let_def by (simp add: text_eval)
  have p: "bc_str2num ''-0.0512'' 2 = \<lparr>n_scale = 2, n_value = - 5\<rparr>"
    by (simp add: bc_str2num_def c y Let_def text_eval)
  have f: "bc_num2str \<lparr>n_scale = 2, n_value = - 5\<rparr> = ''-.05''"
    unfolding bc_num2str_def Let_def by (simp add: text_eval dec_nat.simps)
  show ?thesis
    using bc_str2num_num2str_roundtrip [of 2 "\<lparr>n_scale = 2, n_value = - 5\<rparr>" "''-0.0512''"]
    by (simp add: p f)
qed

subsection \<open>Output in a base above 16\<close>

lemma tdiv_nonneg: "0 \<le> n \<Longrightarrow> 0 < d \<Longrightarrow> mpz_tdiv_q n d = n div d"
  by (cases "n = 0") (simp_all add: mpz_tdiv_q_def)

lemma bc_divide_int:
  assumes "0 \<le> n" "0 < b"
  shows "bc_divide \<lparr>n_scale = 0, n_value = n\<rparr> \<lparr>n_scale = 0, n_value = b\<rparr> q 0 =
          (0, \<lparr>n_scale = 0, n_value = n div b\<rparr>)"
  using assms by (simp add: bc_divide_def bc_is_zero_def bc_new_num_def Let_def tdiv_nonneg)

lemma bc_modulo_int:
  assumes "0 \<le> n" "0 < b"
  shows "bc_modulo \<lparr>n_scale = 0, n_value = n\<rparr> \<lparr>n_scale = 0, n_value = b\<rparr> c 0 =
          (0, \<lparr>n_scale = 0, n_value = n mod b\<rparr>)"
proof -
  have "n - n div b * b = n mod b" by (simp add: minus_div_mult_eq_mod)
  then show ?thesis
    using assms
    by (simp add: bc_modulo_def bc_divmod_def bc_divide_int bc_is_zero_def bc_multiply_def
        bc_sub_def bc_new_num_def MAX_int_def MIN_int_def Let_def)
qed

lemma bc_num2long_small:
  assumes "0 \<le> d" "d \<le> LONG_MAX"
  shows "bc_num2long \<lparr>n_scale = 0, n_value = d\<rparr> = d"
  using assms by (simp add: bc_num2long_def mpz_fits_slong_p_def Let_def)

lemma INT_MAX_LONG_MAX: "INT_MAX \<le> LONG_MAX"
  by (simp add: INT_MAX_def LONG_MAX_def)

lemma out_num_int_digits_eq:
  assumes b: "2 \<le> b" "int b \<le> LONG_MAX"
  shows "out_num_int_digits \<lparr>n_scale = 0, n_value = int n\<rparr> \<lparr>n_scale = 0, n_value = int b\<rparr> cur ds
           = Some (map int (base_digits b n) @ ds)"
proof (induction n arbitrary: cur ds rule: less_induct)
  case (less n)
  show ?case
  proof (cases "n = 0")
    case True
    then show ?thesis
      by (subst out_num_int_digits.simps) (simp add: bc_is_zero_def base_digits.simps)
  next
    case False
    have lt: "n div b < n" using False b by simp
    have "n mod b < b" using b by simp
    then have d: "0 \<le> int (n mod b)" "int (n mod b) \<le> LONG_MAX"
      using b(2) by simp_all
    have q: "int n div int b = int (n div b)" by (simp add: zdiv_int)
    have m: "int n mod int b = int (n mod b)" by (simp add: zmod_int)
    have bd: "base_digits b n = base_digits b (n div b) @ [n mod b]"
      using False b by (subst base_digits.simps) simp
    show ?thesis
      using False b
      by (subst out_num_int_digits.simps)
         (simp add: bc_is_zero_def bc_divide_int bc_modulo_int bc_num2long_small[OF d] q m
            less.IH[OF lt] bd)
  qed
qed

lemma out_num_print_digits_big:
  assumes "16 < o_base"
  shows "out_num_print_digits o_base ix ds = Some (concat (map (\<lambda>d. bc_out_long d ix 1) ds))"
  using assms by (induction ds) (simp_all add: out_digit_def)

lemma dec_nat_length: "10 ^ k \<le> n \<Longrightarrow> k + 1 \<le> length (dec_nat n)"
proof (induction k arbitrary: n)
  case 0
  then show ?case using dec_nat_nonempty[of n] by (cases "dec_nat n") simp_all
next
  case (Suc k)
  have "(10::nat) \<le> 10 ^ Suc k" by simp
  then have n10: "\<not> n < 10" using Suc.prems by linarith
  have "10 ^ k \<le> n div 10" using Suc.prems by (simp add: less_eq_div_iff_mult_less_eq mult.commute)
  then have "k + 1 \<le> length (dec_nat (n div 10))" by (rule Suc.IH)
  then show ?case using n10 by (subst dec_nat.simps) simp
qed

lemma bc_num_length_nat: "0 \<le> v \<Longrightarrow> bc_num_length \<lparr>n_scale = 0, n_value = v\<rparr> = int (length (dec_nat (nat v)))"
proof -
  assume v: "0 \<le> v"
  have "hd (dec_nat (nat v)) \<noteq> CHR ''-''"
    using dec_nat_digits[of "nat v"] dec_nat_nonempty[of "nat v"]
    by (cases "dec_nat (nat v)") auto
  then show ?thesis using v by (simp add: bc_num_length_def gmp_printf_Zd_def at_char_def Let_def)
qed

lemma bc_multiply_int:
  "bc_multiply \<lparr>n_scale = 0, n_value = x\<rparr> \<lparr>n_scale = 0, n_value = y\<rparr> 0 = \<lparr>n_scale = 0, n_value = x * y\<rparr>"
  by (simp add: bc_multiply_def bc_new_num_def MAX_int_def MIN_int_def Let_def)

lemma out_num_frac_digits_returns:
  assumes ob: "16 < o_base" and s: "0 \<le> n_scale num"
  shows "\<exists>fr. out_num_frac_digits num o_base ix ps fpt (bc_int2num o_base)
            (bc_num_length \<lparr>n_scale = 0, n_value = o_base ^ k\<rparr>)
            \<lparr>n_scale = 0, n_value = o_base ^ k\<rparr> out = Some (out @ fr)"
proof (induction "nat (n_scale num) + 1 - k" arbitrary: k ps fpt out)
  case 0
  have p: "(0::int) \<le> o_base ^ k" using ob by simp
  have "(10::nat) ^ k \<le> nat (o_base ^ k)"
  proof -
    have "(10::int) ^ k \<le> o_base ^ k" using ob by (intro power_mono) simp_all
    then show ?thesis by (metis nat_mono nat_numeral nat_power_eq zero_le_numeral)
  qed
  then have "k + 1 \<le> length (dec_nat (nat (o_base ^ k)))" by (rule dec_nat_length)
  then have "\<not> bc_num_length \<lparr>n_scale = 0, n_value = o_base ^ k\<rparr> \<le> n_scale num"
    using 0 s by (simp add: bc_num_length_nat[OF p])
  then show ?case by (subst out_num_frac_digits.simps) simp
next
  case (Suc m)
  have mm: "m = nat (n_scale num) + 1 - Suc k" using Suc.hyps(2) by simp
  have step: "bc_multiply \<lparr>n_scale = 0, n_value = o_base ^ k\<rparr> (bc_int2num o_base) 0
      = \<lparr>n_scale = 0, n_value = o_base ^ Suc k\<rparr>"
    by (simp add: bc_int2num_def bc_new_num_def bc_multiply_int mult.commute)
  show ?case
  proof (cases "bc_num_length \<lparr>n_scale = 0, n_value = o_base ^ k\<rparr> \<le> n_scale num")
    case False
    then show ?thesis by (subst out_num_frac_digits.simps) simp
  next
    case True
    obtain s where sd: "out_digit o_base ix ps (bc_num2long (bc_multiply fpt (bc_int2num o_base) (n_scale num))) = Some s"
      using ob by (simp add: out_digit_def)
    from Suc.hyps(1)[OF mm] obtain fr where
      "out_num_frac_digits num o_base ix (if o_base \<le> 16 then ps else 1)
         (bc_sub (bc_multiply fpt (bc_int2num o_base) (n_scale num))
            (bc_int2num (bc_num2long (bc_multiply fpt (bc_int2num o_base) (n_scale num)))) 0)
         (bc_int2num o_base)
         (bc_num_length \<lparr>n_scale = 0, n_value = o_base ^ Suc k\<rparr>)
         \<lparr>n_scale = 0, n_value = o_base ^ Suc k\<rparr> (out @ s) = Some ((out @ s) @ fr)"
      by blast
    then show ?thesis
      using True by (subst out_num_frac_digits.simps) (simp add: sd step del: power_Suc)
  qed
qed

lemma bc_divide_one:
  assumes "0 \<le> n_scale num"
  shows "snd (bc_divide num one_num q 0) =
     \<lparr>n_scale = 0, n_value = mpz_tdiv_q (n_value num) (10 ^ nat (n_scale num))\<rparr>"
  using assms
  by (cases "n_scale num = 0")
     (simp_all add: bc_divide_def bc_is_zero_def one_num_def bc_new_num_def Let_def)

lemma base_digits_less: "2 \<le> b \<Longrightarrow> d \<in> set (base_digits b n) \<Longrightarrow> d < b"
proof (induction b n rule: base_digits.induct)
  case (1 b n)
  show ?case
  proof (cases "n = 0 \<or> b < 2")
    case True
    then show ?thesis using 1(3) by (subst (asm) base_digits.simps) simp
  next
    case False
    have "d \<in> set (base_digits b (n div b)) \<or> d = n mod b"
      using 1(3) False by (subst (asm) base_digits.simps) auto
    then show ?thesis using 1(1)[OF False 1(2)] 1(2) by auto
  qed
qed

lemma dec_nat_length_mono: "m \<le> n \<Longrightarrow> length (dec_nat m) \<le> length (dec_nat n)"
proof (induction n arbitrary: m rule: dec_nat.induct)
  case (1 n)
  show ?case
  proof (cases "n < 10")
    case True
    then have "m < 10" using 1(2) by simp
    then show ?thesis using True by (subst (1 2) dec_nat.simps) simp
  next
    case False
    show ?thesis
    proof (cases "m < 10")
      case True
      have "1 \<le> length (dec_nat n)" using dec_nat_nonempty[of n] by (cases "dec_nat n") simp_all
      then show ?thesis using True by (subst dec_nat.simps) simp
    next
      case m: False
      have "m div 10 \<le> n div 10" using 1(2) by (rule div_le_mono)
      then have "length (dec_nat (m div 10)) \<le> length (dec_nat (n div 10))" by (rule 1(1)[OF False])
      then show ?thesis using False m by (subst (1 2) dec_nat.simps) simp
    qed
  qed
qed

lemma bc_out_long_digit:
  "bc_out_long (int d) (int w) 1 = CHR '' '' # zero_pad w (dec_nat d)"
  by (simp add: bc_out_long_def gmp_printf_Zd_def zero_pad_def Let_def)

lemma bc_num2str_base_minus_1:
  assumes "16 < o_base"
  shows "int (length (bc_num2str (bc_int2num (o_base - 1)))) = int (digit_width o_base)"
proof -
  have "bc_num2str (bc_int2num (o_base - 1)) = dec_nat (nat (o_base - 1))"
    using assms bc_num2str_shape[of "bc_int2num (o_base - 1)"]
    by (simp add: bc_int2num_def bc_new_num_def digits_of_def)
  then show ?thesis by (simp add: digit_width_def)
qed

text \<open>
  Claim C6, amended.  When \<open>bc_out_num\<close> prints a nonzero number in a base greater
  than 16, it returns, and after the sign every digit of the integer part (the digits of
  the magnitude of the integer part in that base, most significant first) is written
  as the decimal text of its value, padded with zeros to the width of \<open>base - 1\<close>
  (no digit is wider), with a single space before every digit, the first included.
  The fraction part follows: nothing for scale 0, else a text that starts with the
  decimal point.
\<close>

theorem bc_out_num_big_base:
  assumes ob: "16 < o_base" and im: "o_base \<le> INT_MAX"
    and nz: "\<not> bc_is_zero num" and s: "0 \<le> n_scale num"
  shows "\<exists>frac_text.
      bc_out_num num o_base leading_zero =
        Some ((if bc_is_neg num then ''-'' else []) @
              concat (map (\<lambda>d. CHR '' '' # zero_pad (digit_width o_base) (dec_nat d))
                        (base_digits (nat o_base) (int_part_of num))) @
              frac_text)
    \<and> list_all (\<lambda>d. length (dec_nat d) \<le> digit_width o_base)
         (base_digits (nat o_base) (int_part_of num))
    \<and> (if n_scale num > 0 then frac_text \<noteq> [] \<and> hd frac_text = CHR ''.'' else frac_text = [])"
proof -
  define b where "b = nat o_base"
  define w where "w = digit_width o_base"
  define sign where "sign = (if bc_is_neg num then ''-'' else [])"
  define ints where "ints = concat (map (\<lambda>d. CHR '' '' # zero_pad w (dec_nat d)) (base_digits b (int_part_of num)))"
  define fp where "fp = (bc_sub num (snd (bc_divide num one_num zero_num 0)) 0)
      \<lparr>n_value := \<bar>n_value (bc_sub num (snd (bc_divide num one_num zero_num 0)) 0)\<bar>\<rparr>"
  have b2: "2 \<le> b" "int b \<le> LONG_MAX" "int b = o_base"
    using ob im INT_MAX_LONG_MAX by (simp_all add: b_def)
  have base: "bc_int2num o_base = \<lparr>n_scale = 0, n_value = int b\<rparr>"
    by (simp add: bc_int2num_def bc_new_num_def b2)
  have ip: "(snd (bc_divide num one_num zero_num 0))
              \<lparr>n_value := \<bar>n_value (snd (bc_divide num one_num zero_num 0))\<bar>\<rparr>
            = \<lparr>n_scale = 0, n_value = int (int_part_of num)\<rparr>"
    by (simp add: bc_divide_one[OF s] int_part_of_def)
  have digits: "out_num_int_digits \<lparr>n_scale = 0, n_value = int (int_part_of num)\<rparr>
        (bc_int2num o_base) zero_num [] = Some (map int (base_digits b (int_part_of num)))"
    unfolding base using out_num_int_digits_eq[OF b2(1,2), of "int_part_of num" zero_num "[]"] by simp
  have print: "out_num_print_digits o_base (int w) (map int (base_digits b (int_part_of num))) = Some ints"
    by (simp add: out_num_print_digits_big[OF ob] ints_def comp_def bc_out_long_digit)
  have ix: "int (length (bc_num2str (bc_int2num (o_base - 1)))) = int w"
    by (simp add: bc_num2str_base_minus_1[OF ob] w_def)
  have one: "one_num = \<lparr>n_scale = 0, n_value = o_base ^ 0\<rparr>" by (simp add: one_num_def bc_new_num_def)
  obtain fr where fr: "out_num_frac_digits num o_base (int w) 0 fp (bc_int2num o_base)
        (bc_num_length one_num) one_num (sign @ ints @ ''.'') = Some ((sign @ ints @ ''.'') @ fr)"
    unfolding one using out_num_frac_digits_returns[OF ob s] by blast
  have out: "bc_out_num num o_base leading_zero =
      (if n_scale num > 0 then Some ((sign @ ints @ ''.'') @ fr) else Some (sign @ ints))"
    unfolding bc_out_num_def Let_def ip ix
    using ob nz fr[unfolded fp_def sign_def] by (simp add: digits print sign_def)
  have small: "list_all (\<lambda>d. length (dec_nat d) \<le> w) (base_digits b (int_part_of num))"
  proof -
    have "length (dec_nat d) \<le> w" if "d \<in> set (base_digits b (int_part_of num))" for d
    proof -
      have "d < b" using base_digits_less[OF b2(1) that] .
      then have "d \<le> nat (o_base - 1)" using b2(3) by simp
      then show ?thesis unfolding w_def digit_width_def by (rule dec_nat_length_mono)
    qed
    then show ?thesis by (simp add: list_all_iff)
  qed
  show ?thesis
  proof (cases "n_scale num > 0")
    case True
    then show ?thesis using out small
      unfolding b_def [symmetric] w_def [symmetric] sign_def [symmetric] ints_def [symmetric]
      by (intro exI[of _ "CHR ''.'' # fr"]) simp
  next
    case False
    then show ?thesis using out small
      unfolding b_def [symmetric] w_def [symmetric] sign_def [symmetric] ints_def [symmetric]
      by (intro exI[of _ "[]"]) simp
  qed
qed

text \<open>The definitions that evaluate an output on a given number.\<close>

lemmas out_num_eval = bc_is_neg_def bc_is_zero_def bc_divide_def bc_divmod_def bc_modulo_def
  bc_multiply_def bc_sub_def bc_num2long_def bc_int2num_def bc_new_num_def zero_num_def one_num_def
  MAX_int_def MIN_int_def mpz_tdiv_q_def mpz_fits_slong_p_def LONG_MAX_def
  bc_num_length_def bc_out_long_def out_digit_def gmp_printf_Zd_def at_char_def digit_char_def

text \<open>
  Claim C6 as stated fails: 255 in base 256 has the single digit 255, and it is printed
  with a space before it.
\<close>

theorem bc_out_num_first_space_counterexample:
  "bc_out_num \<lparr>n_scale = 0, n_value = 255\<rparr> 256 0 = Some '' 255''
   \<and> hd '' 255'' = CHR '' ''"
proof -
  have d: "out_num_int_digits \<lparr>n_scale = 0, n_value = 255\<rparr> \<lparr>n_scale = 0, n_value = 256\<rparr>
             \<lparr>n_scale = 0, n_value = 0\<rparr> [] = Some [255]"
    by (simp add: out_num_int_digits.simps out_num_eval Let_def)
  have w: "bc_num2str \<lparr>n_scale = 0, n_value = 255\<rparr> = ''255''"
    unfolding bc_num2str_def Let_def by (simp add: text_eval dec_nat.simps)
  show ?thesis
    unfolding bc_out_num_def Let_def
    by (simp add: out_num_eval d w dec_nat.simps)
qed

text \<open>65535 in base 256: two digits, each with its space.\<close>

theorem bc_out_num_big_base_witness:
  "(16::int) < 256 \<and> 256 \<le> INT_MAX \<and> \<not> bc_is_zero \<lparr>n_scale = 0, n_value = 65535\<rparr>
   \<and> bc_out_num \<lparr>n_scale = 0, n_value = 65535\<rparr> 256 0 = Some '' 255 255''"
proof -
  have i: "int_part_of \<lparr>n_scale = 0, n_value = 65535\<rparr> = 65535"
    by (simp add: int_part_of_def)
  have b: "base_digits 256 65535 = [255, 255]"
    by (simp add: base_digits.simps)
  have w: "digit_width 256 = 3"
    by (simp add: digit_width_def dec_nat.simps)
  have t: "zero_pad 3 (dec_nat 255) = ''255''"
    by (simp add: zero_pad_def dec_nat.simps digit_char_def)
  show ?thesis
    using bc_out_num_big_base [of 256 "\<lparr>n_scale = 0, n_value = 65535\<rparr>" 0]
    by (auto simp: INT_MAX_def bc_is_zero_def bc_is_neg_def i b w t)
qed

section \<open>Properties of the store layer\<close>

subsection \<open>Calls that fail\<close>

lemma bc_compare_neg:
  "bc_is_neg v \<Longrightarrow> bc_compare v zero_num < 0"
  by (auto simp: bc_compare_def bc_do_compare_def bc_is_neg_def zero_num_def bc_new_num_def
      mpz_cmp_def Let_def sgn_if mult_neg_pos split: if_splits)

lemma demo_state_eq:
  "demo_state =
    \<lparr>cells = (\<lambda>_. \<lparr>n_scale = 0, n_value = 0, n_refs = 0\<rparr>)
        (1 := \<lparr>n_scale = 0, n_value = 0, n_refs = 1\<rparr>,
         2 := \<lparr>n_scale = 0, n_value = 1, n_refs = 1\<rparr>,
         3 := \<lparr>n_scale = 0, n_value = 2, n_refs = 1\<rparr>,
         4 := \<lparr>n_scale = 0, n_value = 7, n_refs = 1\<rparr>,
         5 := \<lparr>n_scale = 0, n_value = 5, n_refs = 1\<rparr>,
         6 := \<lparr>n_scale = 0, n_value = 13, n_refs = 1\<rparr>,
         7 := \<lparr>n_scale = 0, n_value = - LONG_MAX - 1, n_refs = 1\<rparr>,
         8 := \<lparr>n_scale = 1, n_value = 5, n_refs = 1\<rparr>,
         9 := \<lparr>n_scale = 0, n_value = - 1, n_refs = 1\<rparr>),
      bc_Free_list = [], heap_top = 10, g_zero = 1, g_one = 2, g_two = 3, messages = []\<rparr>"
  unfolding demo_state_def bc_init_numbers_st_def empty_state_def bc_new_num_st_def mpz_set_def Let_def
  by (simp add: eval_nat_numeral)


text \<open>
  Claim C3.  A call that fails is atomic.  \<open>bc_divide\<close>, \<open>bc_divmod\<close> and
  \<open>bc_modulo\<close> with a zero divisor return \<open>- 1\<close>, and so does \<open>bc_raisemod\<close> with a
  zero modulus or a negative exponent; \<open>bc_sqrt\<close> of a negative number returns 0
  (false).  In each case the whole state is the one before the call (no cell, no
  reference count and no message has changed) and every result slot holds the handle
  it held before.
\<close>

theorem failing_calls_atomic:
  "(bc_is_zero (val st n2) \<longrightarrow>
      bc_divide_st st n1 n2 quot scale = (- 1, st, quot)
    \<and> bc_divmod_st st n1 n2 q rem scale = (- 1, st, q, rem)
    \<and> bc_modulo_st st n1 n2 rem scale = (- 1, st, rem))
 \<and> (bc_is_zero (val st md) \<or> bc_is_neg (val st expo) \<longrightarrow>
      bc_raisemod_st st base expo md result scale = Some (- 1, st, result))
 \<and> (val st (g_zero st) = zero_num \<and> bc_is_neg (val st num) \<longrightarrow>
      bc_sqrt_st st num scale = (0, st, num))"
proof (intro conjI impI)
  assume "bc_is_zero (val st n2)"
  then show "bc_divide_st st n1 n2 quot scale = (- 1, st, quot)"
    and d: "bc_divmod_st st n1 n2 q rem scale = (- 1, st, q, rem)"
    by (simp_all add: bc_divide_st_def bc_divmod_st_def)
  assume "bc_is_zero (val st n2)"
  then show "bc_modulo_st st n1 n2 rem scale = (- 1, st, rem)"
    by (simp add: bc_modulo_st_def bc_divmod_st_def)
next
  assume "bc_is_zero (val st md) \<or> bc_is_neg (val st expo)"
  then show "bc_raisemod_st st base expo md result scale = Some (- 1, st, result)"
    by (auto simp: bc_raisemod_st_def)
next
  assume "val st (g_zero st) = zero_num \<and> bc_is_neg (val st num)"
  then have "bc_compare (val st num) (val st (g_zero st)) < 0" by (simp add: bc_compare_neg)
  then show "bc_sqrt_st st num scale = (0, st, num)"
    by (simp add: bc_sqrt_st_def Let_def)
qed


text \<open>
  In the example state: division of 7 by the constant zero, 7 to the 5 modulo zero,
  7 to the \<open>- LONG_MAX - 1\<close> modulo 13, and the square root of \<open>- LONG_MAX - 1\<close>.
\<close>

theorem failing_calls_atomic_witness:
  "bc_divide_st demo_state 4 1 4 0 = (- 1, demo_state, 4)
 \<and> bc_divmod_st demo_state 4 1 (Some 4) 5 0 = (- 1, demo_state, Some 4, 5)
 \<and> bc_modulo_st demo_state 4 1 5 0 = (- 1, demo_state, 5)
 \<and> bc_raisemod_st demo_state 4 5 1 6 0 = Some (- 1, demo_state, 6)
 \<and> bc_raisemod_st demo_state 4 7 6 4 0 = Some (- 1, demo_state, 4)
 \<and> bc_sqrt_st demo_state 7 2 = (0, demo_state, 7)"
  using failing_calls_atomic [where st = demo_state and ?n1.0 = 4 and ?n2.0 = 1 and quot = 4
      and q = "Some 4" and rem = 5 and scale = 0 and md = 1 and expo = 5 and base = 4
      and result = 6 and num = 7]
    failing_calls_atomic [where st = demo_state and ?n2.0 = 1 and scale = 0 and md = 6 and expo = 7 and base = 4
      and result = 4 and num = 7]
    failing_calls_atomic [where st = demo_state and ?n2.0 = 1 and scale = 2 and num = 7]
  by (simp add: demo_state_eq val_def bc_is_zero_def bc_is_neg_def zero_num_def bc_new_num_def
      LONG_MAX_def)


subsection \<open>The exponent of \<open>bc_raise\<close>\<close>

lemma messages_simps [simp]:
  "messages (mpz_set st p v) = messages st"
  "messages (bc_free_num_st st p) = messages st"
  "messages (snd (bc_copy_num_st st p)) = messages st"
  "messages (snd (bc_new_num_st st len scale)) = messages st"
  by (simp_all add: mpz_set_def bc_free_num_st_def bc_copy_num_st_def bc_new_num_st_def Let_def
      split: list.splits)

lemma raise_power_st_messages [simp]:
  "messages (snd (raise_power_st st num1 exponent rscale)) = messages st"
  unfolding raise_power_st_def Let_def by (simp add: case_prod_beta)

lemma bc_divide_st_messages: "messages (fst (snd (bc_divide_st st n1 n2 quot scale))) = messages st"
  by (simp add: bc_divide_st_def Let_def split: prod.splits)
    (metis messages_simps(4) snd_conv)


lemma messages_rt [simp]:
  "messages (rt_warn st m) = messages st @ [Warn m]"
  "messages (rt_error st m) = messages st @ [Error m]"
  by (simp_all add: rt_warn_def rt_error_def)

lemma raise_exponent_st_eq:
  "raise_exponent_st st num2 =
     (st\<lparr>messages := messages st
         @ (if n_scale (cells st num2) \<noteq> 0 then [Warn ''non-zero scale in exponent''] else [])
         @ (if bc_num2long (val st num2) = 0 \<and> 0 < bc_do_compare (val st num2) (val st (g_one st)) False
            then [Error ''exponent too large in raise''] else [])\<rparr>,
      bc_num2long (val st num2))"
  by (simp add: raise_exponent_st_def Let_def rt_warn_def rt_error_def val_def)

lemma bc_raise_st_messages:
  "messages (fst (bc_raise_st st num1 num2 result scale)) =
     messages st
     @ (if n_scale (cells st num2) \<noteq> 0 then [Warn ''non-zero scale in exponent''] else [])
     @ (if bc_num2long (val st num2) = 0 \<and> 0 < bc_do_compare (val st num2) (val st (g_one st)) False
        then [Error ''exponent too large in raise''] else [])"
proof -
  obtain st2 e where r: "raise_exponent_st st num2 = (st2, e)" by (metis surj_pair)
  have m: "messages (fst (bc_raise_st st num1 num2 result scale)) = messages st2"
    unfolding bc_raise_st_def r Let_def
    by (simp add: case_prod_beta bc_divide_st_messages)
  show ?thesis using r unfolding m raise_exponent_st_eq by auto
qed


lemma bc_num2long_int_part:
  assumes "0 \<le> n_scale n"
  shows "bc_num2long n =
     (let ip = mpz_tdiv_q (n_value n) (10 ^ nat (n_scale n))
      in if mpz_fits_slong_p ip \<and> ip \<noteq> - LONG_MAX - 1 then ip else 0)"
  using assms by (cases "n_scale n = 0") (auto simp: bc_num2long_def Let_def)

lemma cmpabs_one:
  assumes "0 \<le> n_scale n"
  shows "0 < bc_do_compare n one_num False \<longleftrightarrow> 10 ^ nat (n_scale n) < \<bar>n_value n\<bar>"
  using assms
  by (auto simp: bc_do_compare_def one_num_def bc_new_num_def mpz_cmpabs_def Let_def)

lemma raise_error_cond:
  assumes s: "0 \<le> n_scale n"
  shows "(bc_num2long n = 0 \<and> 0 < bc_do_compare n one_num False) \<longleftrightarrow>
     (\<not> mpz_fits_slong_p (mpz_tdiv_q (n_value n) (10 ^ nat (n_scale n)))
      \<or> mpz_tdiv_q (n_value n) (10 ^ nat (n_scale n)) = - LONG_MAX - 1)"
proof -
  define p :: int where "p = 10 ^ nat (n_scale n)"
  define ip where "ip = mpz_tdiv_q (n_value n) p"
  have p0: "0 < p" by (simp add: p_def)
  have a: "\<bar>ip\<bar> = \<bar>n_value n\<bar> div p" using p0 by (simp add: ip_def tdiv_abs)
  have l: "bc_num2long n = (if mpz_fits_slong_p ip \<and> ip \<noteq> - LONG_MAX - 1 then ip else 0)"
    using bc_num2long_int_part[OF s] by (simp add: ip_def p_def Let_def)
  have c: "0 < bc_do_compare n one_num False \<longleftrightarrow> p < \<bar>n_value n\<bar>"
    using cmpabs_one[OF s] by (simp add: p_def)
  show ?thesis
  proof (cases "mpz_fits_slong_p ip \<and> ip \<noteq> - LONG_MAX - 1")
    case True
    have "\<not> (ip = 0 \<and> p < \<bar>n_value n\<bar>)"
    proof
      assume h: "ip = 0 \<and> p < \<bar>n_value n\<bar>"
      then have "\<bar>n_value n\<bar> div p = 0" using a by simp
      then have "\<bar>n_value n\<bar> < p" using p0 by (auto simp: zdiv_eq_0_iff)
      then show False using h by simp
    qed
    then show ?thesis using True l c by (simp add: ip_def p_def)
  next
    case False
    then have big: "LONG_MAX < \<bar>ip\<bar>" by (auto simp: mpz_fits_slong_p_def)
    have d1: "1 \<le> \<bar>n_value n\<bar> div p" using big a by (simp add: LONG_MAX_def)
    have "\<not> \<bar>n_value n\<bar> < p"
    proof
      assume "\<bar>n_value n\<bar> < p"
      then have "\<bar>n_value n\<bar> div p = 0" by (simp add: div_pos_pos_trivial)
      then show False using d1 by simp
    qed
    then have "p \<le> \<bar>n_value n\<bar>" by simp
    moreover have "\<bar>n_value n\<bar> \<noteq> p"
    proof
      assume "\<bar>n_value n\<bar> = p"
      then have "\<bar>ip\<bar> = 1" using a p0 by simp
      then show False using big by (simp add: LONG_MAX_def)
    qed
    ultimately have "p < \<bar>n_value n\<bar>" by simp
    then show ?thesis using False l c by (auto simp: ip_def p_def)
  qed
qed


text \<open>
  Claim C8, amended.  \<open>bc_raise\<close> calls \<open>rt_error\<close> with
  \<open>exponent too large in raise\<close> if and only if the integer part of the exponent does
  not fit in a \<open>long\<close> or is \<open>- LONG_MAX - 1\<close>, the one \<open>long\<close> that \<open>bc_num2long\<close>
  refuses (before it, \<open>rt_warn\<close> is called when the exponent has scale digits, and
  nothing else is reported).  When the integer part of the exponent is 0 the slot
  receives the handle of the shared constant \<open>_one_\<close>, whose reference count has grown
  by one (by none when the slot held \<open>_one_\<close> itself, whose share it gave up).
\<close>

theorem bc_raise_error_amended:
  assumes one: "val st (g_one st) = one_num" and sc: "0 \<le> n_scale (cells st num2)"
  shows
    "(let ip = mpz_tdiv_q (n_value (cells st num2)) (10 ^ nat (n_scale (cells st num2)));
          st' = fst (bc_raise_st st num1 num2 result scale);
          p = snd (bc_raise_st st num1 num2 result scale)
      in messages st' =
           messages st
           @ (if n_scale (cells st num2) \<noteq> 0 then [Warn ''non-zero scale in exponent''] else [])
           @ (if \<not> mpz_fits_slong_p ip \<or> ip = - LONG_MAX - 1
              then [Error ''exponent too large in raise''] else [])
       \<and> (ip = 0 \<longrightarrow>
            p = g_one st \<and> val st' p = one_num
          \<and> n_refs (cells st' p) =
              n_refs (cells st p) + (if result = g_one st \<and> result \<noteq> 0 then 0 else 1)))"
proof -
  define ip where "ip = mpz_tdiv_q (n_value (cells st num2)) (10 ^ nat (n_scale (cells st num2)))"
  have s: "0 \<le> n_scale (val st num2)" using sc by (simp add: val_def)
  have ipv: "ip = mpz_tdiv_q (n_value (val st num2)) (10 ^ nat (n_scale (val st num2)))"
    by (simp add: ip_def val_def)
  have c: "(bc_num2long (val st num2) = 0 \<and> 0 < bc_do_compare (val st num2) (val st (g_one st)) False)
      \<longleftrightarrow> (\<not> mpz_fits_slong_p ip \<or> ip = - LONG_MAX - 1)"
    unfolding one ipv by (rule raise_error_cond[OF s])
  have m: "messages (fst (bc_raise_st st num1 num2 result scale)) =
           messages st
           @ (if n_scale (cells st num2) \<noteq> 0 then [Warn ''non-zero scale in exponent''] else [])
           @ (if \<not> mpz_fits_slong_p ip \<or> ip = - LONG_MAX - 1
              then [Error ''exponent too large in raise''] else [])"
    unfolding bc_raise_st_messages c ..
  have z: "snd (bc_raise_st st num1 num2 result scale) = g_one st
      \<and> val (fst (bc_raise_st st num1 num2 result scale)) (g_one st) = one_num
      \<and> n_refs (cells (fst (bc_raise_st st num1 num2 result scale)) (g_one st)) =
              n_refs (cells st (g_one st)) + (if result = g_one st \<and> result \<noteq> 0 then 0 else 1)"
    if i0: "ip = 0"
  proof -
    have l0: "bc_num2long (val st num2) = 0"
      using bc_num2long_int_part[OF s] i0 by (simp add: ipv Let_def)
    show ?thesis
      using one unfolding bc_raise_st_def raise_exponent_st_eq l0
      by (simp add: Let_def bc_free_num_st_def bc_copy_num_st_def val_def)
  qed
  show ?thesis using m z unfolding ip_def[symmetric] Let_def by simp
qed


text \<open>
  Exponent 0.5: a warning, and a share of \<open>_one_\<close>; exponent 5: no message; exponent
  \<open>- LONG_MAX - 1\<close>: the error.
\<close>

theorem bc_raise_error_amended_witness:
  "messages (fst (bc_raise_st demo_state 4 8 4 0)) = [Warn ''non-zero scale in exponent'']
 \<and> snd (bc_raise_st demo_state 4 8 4 0) = 2
 \<and> val (fst (bc_raise_st demo_state 4 8 4 0)) 2 = one_num
 \<and> n_refs (cells (fst (bc_raise_st demo_state 4 8 4 0)) 2) = 2
 \<and> messages (fst (bc_raise_st demo_state 4 5 4 0)) = []
 \<and> messages (fst (bc_raise_st demo_state 4 7 4 0)) = [Error ''exponent too large in raise'']"
  using bc_raise_error_amended [of demo_state 8 4 4 0] bc_raise_error_amended [of demo_state 5 4 4 0]
    bc_raise_error_amended [of demo_state 7 4 4 0]
  by (auto simp: demo_state_eq val_def one_num_def bc_new_num_def mpz_tdiv_q_def
      mpz_fits_slong_p_def LONG_MAX_def Let_def)


text \<open>
  The exponent \<open>- LONG_MAX - 1\<close> fits in a \<open>long\<close>, and the error is raised all the
  same.
\<close>

theorem bc_raise_long_min_counterexample:
  "mpz_fits_slong_p (mpz_tdiv_q (n_value (cells demo_state 7)) (10 ^ nat (n_scale (cells demo_state 7))))
 \<and> messages (fst (bc_raise_st demo_state 4 7 4 0)) = [Error ''exponent too large in raise'']"
  unfolding bc_raise_st_messages
  by (simp add: demo_state_eq val_def bc_num2long_def bc_do_compare_def mpz_cmpabs_def
      mpz_tdiv_q_def mpz_fits_slong_p_def LONG_MAX_def Let_def)

subsection \<open>Allocation and frames\<close>

text \<open>
  \<open>bc_new_num\<close> returns a cell that was not live, and \<open>install\<close> (allocate, fill,
  release the slot's occupant) changes no other cell.  \<open>changed st st' d\<close> composes along
  a run of the library.
\<close>

lemma bc_new_num_st_fst: "fst (bc_new_num_st st len scale) = next_cell st"
  by (simp add: bc_new_num_st_def next_cell_def split: list.splits)

lemma new_other:
  "q \<noteq> next_cell st \<Longrightarrow> cells (snd (bc_new_num_st st len scale)) q = cells st q"
  by (simp add: bc_new_num_st_def next_cell_def split: list.splits)

lemma live_not_next: "alloc_ok st \<Longrightarrow> live st p \<Longrightarrow> p \<noteq> next_cell st"
  by (auto simp: alloc_ok_def live_def next_cell_def split: list.splits)

lemma next_cell_not_live: "alloc_ok st \<Longrightarrow> \<not> live st (next_cell st)"
  using live_not_next by blast

lemma next_cell_pos: "alloc_ok st \<Longrightarrow> 0 < next_cell st"
  by (auto simp: alloc_ok_def next_cell_def split: list.splits)

text \<open>The state after \<open>install\<close>, field by field.\<close>

lemma install_fields:
  assumes "install st v c = (st', p)"
  shows "p = next_cell st"
    and "heap_top st' = (if bc_Free_list st = [] then heap_top st + 1 else heap_top st)"
    and "g_zero st' = g_zero st" "g_one st' = g_one st" "g_two st' = g_two st"
    and "messages st' = messages st"
    and "c \<noteq> p \<Longrightarrow> cells st' p = \<lparr>n_scale = n_scale v, n_value = n_value v, n_refs = 1\<rparr>"
    and "c \<noteq> p \<Longrightarrow> c \<noteq> 0 \<Longrightarrow> cells st' c = (cells st c)\<lparr>n_refs := n_refs (cells st c) - 1\<rparr>"
    and "\<And>y. y \<noteq> p \<Longrightarrow> y \<noteq> c \<Longrightarrow> cells st' y = cells st y"
    and "c \<noteq> p \<Longrightarrow> bc_Free_list st' =
           (if c \<noteq> 0 \<and> n_refs (cells st c) = 1 then [c] else []) @ tl (bc_Free_list st)"
  using assms
  by (auto simp: install_def bc_new_num_st_def mpz_set_def bc_free_num_st_def next_cell_def Let_def
      split: list.splits if_splits)

lemma install_spec:
  assumes ok: "alloc_ok st" and c: "c = 0 \<or> live st c" and i: "install st v c = (st', p)"
  shows "fresh_result st st' p v c"
proof -
  note f = install_fields[OF i]
  have pn: "\<not> live st p" "0 < p" using ok f(1) next_cell_not_live next_cell_pos by auto
  have cp: "c \<noteq> p" using c pn by auto
  have fl: "bc_Free_list st' = (if c \<noteq> 0 \<and> n_refs (cells st c) = 1 then [c] else []) @ tl (bc_Free_list st)"
    using f(10)[OF cp] .
  have ptl: "p \<notin> set (tl (bc_Free_list st))" "p < heap_top st'"
    using ok f(1,2) by (auto simp: alloc_ok_def next_cell_def list_all_iff split: list.splits)
  have tl_sub: "set (tl (bc_Free_list st)) \<subseteq> set (bc_Free_list st)"
    by (cases "bc_Free_list st") auto
  have ht: "heap_top st \<le> heap_top st'" using f(2) by simp
  have ok': "alloc_ok st'"
  proof -
    have "distinct (tl (bc_Free_list st))" using ok by (simp add: alloc_ok_def distinct_tl)
    moreover have "c \<noteq> 0 \<Longrightarrow> c \<notin> set (tl (bc_Free_list st))"
      using c tl_sub by (auto simp: live_def)
    moreover have "list_all (\<lambda>q. 0 < q \<and> q < heap_top st') (tl (bc_Free_list st))"
      using ok ht tl_sub by (fastforce simp: alloc_ok_def list_all_iff)
    moreover have "c \<noteq> 0 \<Longrightarrow> c < heap_top st'" using c ht by (auto simp: live_def)
    ultimately show ?thesis using ok ht by (auto simp: alloc_ok_def fl)
  qed
  have lp: "live st' p"
    using pn(2) ptl cp f(7)[OF cp] by (auto simp: live_def fl)
  have fr: "live st' y \<and> val st' y = val st y
        \<and> n_refs (cells st' y) = n_refs (cells st y) + (if y = c then - 1 else 0)"
    if y: "live st y" "0 < n_refs (cells st y) + (if y = c then - 1 else 0)" for y
  proof -
    have yp: "y \<noteq> p" using y(1) pn(1) by auto
    have ytl: "y \<notin> set (tl (bc_Free_list st))" using y(1) tl_sub by (auto simp: live_def)
    show ?thesis
    proof (cases "y = c")
      case True
      then have c0: "c \<noteq> 0" using y(1) by (auto simp: live_def)
      show ?thesis using True y ytl ht f(8)[OF cp c0] by (auto simp: live_def val_def fl)
    next
      case False
      show ?thesis using False y ytl ht f(9)[OF yp False] by (auto simp: live_def val_def fl)
    qed
  qed
  show ?thesis
    unfolding fresh_result_def changed_def same_globals_def
    using ok' f(3-5) pn(1) lp f(7)[OF cp] fr by (simp add: val_def)
qed

lemma copy_changed:
  assumes "alloc_ok st"
  shows "changed st (snd (bc_copy_num_st st x)) (\<lambda>y. if y = x then 1 else 0)"
    and "fst (bc_copy_num_st st x) = x"
  using assms
  by (auto simp: changed_def same_globals_def alloc_ok_def live_def val_def bc_copy_num_st_def)

lemma free_changed:
  assumes ok: "alloc_ok st" and c: "c = 0 \<or> live st c"
  shows "changed st (bc_free_num_st st c) (\<lambda>y. if y = c then - 1 else 0)"
  using assms
  by (auto simp: changed_def same_globals_def alloc_ok_def live_def val_def bc_free_num_st_def Let_def)

lemma changed_trans:
  assumes a: "changed st st1 d1" and b: "changed st1 st2 d2"
    and o: "\<And>y. live st y \<Longrightarrow> 0 \<le> d1 y \<or> d2 y \<le> 0"
  shows "changed st st2 (\<lambda>y. d1 y + d2 y)"
proof -
  have "live st2 y \<and> val st2 y = val st y \<and> n_refs (cells st2 y) = n_refs (cells st y) + (d1 y + d2 y)"
    if y: "live st y" "0 < n_refs (cells st y) + (d1 y + d2 y)" for y
  proof -
    have r: "0 < n_refs (cells st y)" using y(1) by (simp add: live_def)
    have "0 < n_refs (cells st y) + d1 y" using o[OF y(1)] y(2) r by auto
    then have 1: "live st1 y" "val st1 y = val st y" "n_refs (cells st1 y) = n_refs (cells st y) + d1 y"
      using a y(1) by (auto simp: changed_def)
    then have "0 < n_refs (cells st1 y) + d2 y" using y(2) by simp
    then have "live st2 y" "val st2 y = val st1 y" "n_refs (cells st2 y) = n_refs (cells st1 y) + d2 y"
      using b 1(1) by (auto simp: changed_def)
    then show ?thesis using 1 by simp
  qed
  then show ?thesis using a b by (auto simp: changed_def same_globals_def)
qed

lemma changed_cong:
  assumes "changed st st' d" and "\<And>y. live st y \<Longrightarrow> d y = d' y"
  shows "changed st st' d'"
  using assms by (auto simp: changed_def)

lemma changed_live:
  assumes "changed st st' d" "live st y" "0 < n_refs (cells st y) + d y"
  shows "live st' y" "val st' y = val st y" "n_refs (cells st' y) = n_refs (cells st y) + d y"
  using assms by (auto simp: changed_def)

lemma changed_keep:
  assumes "changed st st' d" "live st y" "d y = 0"
  shows "live st' y" "val st' y = val st y" "n_refs (cells st' y) = n_refs (cells st y)"
  using assms by (auto simp: changed_def live_def)

lemma changed_ok: "changed st st' d \<Longrightarrow> alloc_ok st'"
  by (simp add: changed_def)

lemma changed_globals: "changed st st' d \<Longrightarrow> same_globals st st'"
  by (simp add: changed_def)

subsection \<open>The single-cell routines\<close>

text \<open>
  \<open>bc_add\<close>, \<open>bc_sub\<close>, \<open>bc_multiply\<close> and a successful \<open>bc_divide\<close> are
  \<open>install\<close> of the number that the value layer computes from the operands.
\<close>

lemma new_num_ex:
  "\<exists>st1. bc_new_num_st st len scale = (next_cell st, st1)
     \<and> (\<forall>q. q \<noteq> next_cell st \<longrightarrow> cells st1 q = cells st q)"
proof -
  have "bc_new_num_st st len scale = (next_cell st, snd (bc_new_num_st st len scale))"
    using bc_new_num_st_fst[of st len scale] by (metis prod.collapse)
  then show ?thesis using new_other by blast
qed

lemma bc_multiply_st_install:
  assumes "n1 \<noteq> next_cell st" "n2 \<noteq> next_cell st"
  shows "bc_multiply_st st n1 n2 prd scale = install st (bc_multiply (val st n1) (val st n2) scale) prd"
proof -
  have ps: "MIN_int (n_scale (cells st n1) + n_scale (cells st n2))
        (MAX_int scale (MAX_int (n_scale (cells st n1)) (n_scale (cells st n2))))
      = n_scale (bc_multiply (val st n1) (val st n2) scale)"
    by (simp add: bc_multiply_def val_def Let_def bc_new_num_def)
  obtain st1 where a: "bc_new_num_st st 1 (n_scale (bc_multiply (val st n1) (val st n2) scale)) = (next_cell st, st1)"
    and c: "\<And>q. q \<noteq> next_cell st \<Longrightarrow> cells st1 q = cells st q"
    using new_num_ex by blast
  show ?thesis
    unfolding bc_multiply_st_def install_def Let_def ps a
    using assms by (simp add: c[OF assms(1)] c[OF assms(2)] mpz_set_def bc_multiply_def val_def bc_new_num_def Let_def)
qed

lemma bc_sub_st_install:
  assumes "n1 \<noteq> next_cell st" "n2 \<noteq> next_cell st"
  shows "bc_sub_st st n1 n2 result scale_min = install st (bc_sub (val st n1) (val st n2) scale_min) result"
proof -
  have ps: "MAX_int (MAX_int (n_scale (cells st n1)) (n_scale (cells st n2))) scale_min
      = n_scale (bc_sub (val st n1) (val st n2) scale_min)"
    by (simp add: bc_sub_def val_def Let_def bc_new_num_def)
  obtain st1 where a: "bc_new_num_st st 1 (n_scale (bc_sub (val st n1) (val st n2) scale_min)) = (next_cell st, st1)"
    and c: "\<And>q. q \<noteq> next_cell st \<Longrightarrow> cells st1 q = cells st q"
    using new_num_ex by blast
  show ?thesis
    unfolding bc_sub_st_def install_def Let_def ps a
    using assms by (simp add: c[OF assms(1)] c[OF assms(2)] mpz_set_def bc_sub_def val_def bc_new_num_def Let_def)
qed

lemma bc_add_st_install:
  assumes "n1 \<noteq> next_cell st" "n2 \<noteq> next_cell st"
  shows "bc_add_st st n1 n2 result scale_min = install st (bc_add (val st n1) (val st n2) scale_min) result"
proof -
  have ps: "MAX_int (MAX_int (n_scale (cells st n1)) (n_scale (cells st n2))) scale_min
      = n_scale (bc_add (val st n1) (val st n2) scale_min)"
    by (simp add: bc_add_def val_def Let_def bc_new_num_def)
  obtain st1 where a: "bc_new_num_st st 1 (n_scale (bc_add (val st n1) (val st n2) scale_min)) = (next_cell st, st1)"
    and c: "\<And>q. q \<noteq> next_cell st \<Longrightarrow> cells st1 q = cells st q"
    using new_num_ex by blast
  show ?thesis
    unfolding bc_add_st_def install_def Let_def ps a
    using assms by (simp add: c[OF assms(1)] c[OF assms(2)] mpz_set_def bc_add_def val_def bc_new_num_def Let_def)
qed

lemma bc_divide_st_install:
  assumes "n1 \<noteq> next_cell st" "n2 \<noteq> next_cell st" "\<not> bc_is_zero (val st n2)"
  shows "bc_divide_st st n1 n2 quot scale =
     (0, install st (snd (bc_divide (val st n1) (val st n2) w scale)) quot)"
proof -
  have ps: "scale = n_scale (snd (bc_divide (val st n1) (val st n2) w scale))"
    using assms(3) by (simp add: bc_divide_def val_def Let_def bc_new_num_def)
  obtain st1 where a: "bc_new_num_st st 1 scale = (next_cell st, st1)"
    and c: "\<And>q. q \<noteq> next_cell st \<Longrightarrow> cells st1 q = cells st q"
    using new_num_ex by blast
  have a': "bc_new_num_st st 1 (n_scale (snd (bc_divide (val st n1) (val st n2) w scale))) = (next_cell st, st1)"
    using a ps by simp
  show ?thesis
    unfolding bc_divide_st_def install_def Let_def a' 
    using assms
    by (simp add: a c[OF assms(1)] c[OF assms(2)] mpz_set_def bc_divide_def val_def bc_new_num_def Let_def)
qed

lemma bc_multiply_st_spec:
  assumes "alloc_ok st" "live st n1" "live st n2" "c = 0 \<or> live st c"
    and "bc_multiply_st st n1 n2 c scale = (st', p)"
  shows "fresh_result st st' p (bc_multiply (val st n1) (val st n2) scale) c"
  using assms install_spec[of st c "bc_multiply (val st n1) (val st n2) scale" st' p]
  by (simp add: bc_multiply_st_install live_not_next)

lemma bc_sub_st_spec:
  assumes "alloc_ok st" "live st n1" "live st n2" "c = 0 \<or> live st c"
    and "bc_sub_st st n1 n2 c scale = (st', p)"
  shows "fresh_result st st' p (bc_sub (val st n1) (val st n2) scale) c"
  using assms install_spec[of st c "bc_sub (val st n1) (val st n2) scale" st' p]
  by (simp add: bc_sub_st_install live_not_next)

lemma bc_add_st_spec:
  assumes "alloc_ok st" "live st n1" "live st n2" "c = 0 \<or> live st c"
    and "bc_add_st st n1 n2 c scale = (st', p)"
  shows "fresh_result st st' p (bc_add (val st n1) (val st n2) scale) c"
  using assms install_spec[of st c "bc_add (val st n1) (val st n2) scale" st' p]
  by (simp add: bc_add_st_install live_not_next)

lemma bc_divide_st_spec:
  assumes "alloc_ok st" "live st n1" "live st n2" "c = 0 \<or> live st c"
    and "\<not> bc_is_zero (val st n2)"
    and "bc_divide_st st n1 n2 c scale = (r, st', p)"
  shows "r = 0 \<and> fresh_result st st' p (snd (bc_divide (val st n1) (val st n2) w scale)) c"
  using assms install_spec[of st c "snd (bc_divide (val st n1) (val st n2) w scale)" st' p]
  by (simp add: bc_divide_st_install[where w = w] live_not_next)

lemma fresh_resultD:
  assumes "fresh_result st st' p v c"
  shows "changed st st' (\<lambda>y. if y = c then - 1 else 0)" "\<not> live st p" "live st' p"
    "val st' p = v" "n_refs (cells st' p) = 1"
  using assms by (simp_all add: fresh_result_def)

text \<open>A cell that is live before a step and not released by it is untouched.\<close>

lemma fresh_result_keep:
  assumes "fresh_result st st' p v c" "live st y" "y \<noteq> c"
  shows "live st' y" "val st' y = val st y" "n_refs (cells st' y) = n_refs (cells st y)" "y \<noteq> p"
  using changed_keep[OF fresh_resultD(1)[OF assms(1)] assms(2)] assms fresh_resultD(2)[OF assms(1)]
  by auto

lemma fresh_result_slot:
  assumes "fresh_result st st' p v c" "live st c" "2 \<le> n_refs (cells st c)"
  shows "live st' c" "val st' c = val st c" "n_refs (cells st' c) = n_refs (cells st c) - 1"
  using changed_live[OF fresh_resultD(1)[OF assms(1)] assms(2)] assms(3) by auto

subsection \<open>\<open>bc_divmod\<close> on the store\<close>

lemma live_pos: "live st p \<Longrightarrow> p \<noteq> 0"
  by (simp add: live_def)

lemma changed_grow:
  assumes "changed st st' d" "live st y" "0 \<le> d y"
  shows "live st' y" "val st' y = val st y" "n_refs (cells st' y) = n_refs (cells st y) + d y"
proof -
  have "0 < n_refs (cells st y) + d y" using assms(2,3) by (simp add: live_def)
  then show "live st' y" "val st' y = val st y" "n_refs (cells st' y) = n_refs (cells st y) + d y"
    using changed_live[OF assms(1,2)] by simp_all
qed

lemma bc_divmod_st_spec:
  assumes ok: "alloc_ok st" and l1: "live st num1" and l2: "live st num2"
    and lz: "live st (g_zero st)"
    and rc: "rc = 0 \<or> live st rc"
    and qc: "\<And>c. quot = Some c \<Longrightarrow> (c = 0 \<or> live st c) \<and> (c = rc \<and> c \<noteq> 0 \<longrightarrow> 2 \<le> n_refs (cells st c))"
    and nz: "\<not> bc_is_zero (val st num2)"
  shows "\<exists>st' q r.
      bc_divmod_st st num1 num2 quot rc scale = (0, st', map_option (\<lambda>_. q) quot, r)
    \<and> changed st st' (\<lambda>y. (if y = rc then - 1 else 0) + (if quot = Some y then - 1 else 0))
    \<and> \<not> live st r \<and> live st' r \<and> n_refs (cells st' r) = 1
    \<and> val st' r = snd (snd (bc_divmod (val st num1) (val st num2) (map_option (val st) quot) (val st rc) scale))
    \<and> (quot \<noteq> None \<longrightarrow>
         \<not> live st q \<and> live st' q \<and> n_refs (cells st' q) = 1 \<and> q \<noteq> r
       \<and> Some (val st' q) = fst (snd (bc_divmod (val st num1) (val st num2) (map_option (val st) quot) (val st rc) scale)))"
proof -
  define z where "z = g_zero st"
  define rscale where "rscale = MAX_int (n_scale (cells st num1)) (n_scale (cells st num2) + scale)"
  define v1 where "v1 = val st num1"
  define v2 where "v2 = val st num2"
  define qv where "qv = snd (bc_divide v1 v2 zero_num scale)"
  define tv where "tv = bc_multiply qv v2 rscale"
  define rv where "rv = bc_sub v1 tv rscale"
  have rs: "rscale = MAX_int (n_scale v1) (n_scale v2 + scale)"
    by (simp add: rscale_def v1_def v2_def val_def)
  have pure: "bc_divmod v1 v2 (map_option (val st) quot) (val st rc) scale =
      (0, (if quot \<noteq> None then Some qv else None), rv)"
    using nz by (simp add: bc_divmod_def Let_def rs qv_def tv_def rv_def v2_def)
  (* bc_init_num (&temp) *)
  define st1 where "st1 = snd (bc_init_num_st st)"
  have e1: "bc_init_num_st st = (z, st1)"
    by (simp add: st1_def z_def bc_init_num_st_def bc_copy_num_st_def)
  have c1: "changed st st1 (\<lambda>y. if y = z then 1 else 0)"
    using copy_changed(1)[OF ok, of z] by (simp add: st1_def bc_init_num_st_def z_def)
  have ok1: "alloc_ok st1" using c1 by (rule changed_ok)
  have k1: "live st1 y \<and> val st1 y = val st y" if "live st y" for y
    using changed_grow[OF c1 that] by simp
  have z1: "live st1 z" using k1 lz z_def by simp
  (* bc_divide (num1, num2, &temp, scale) *)
  obtain r2 st2 q where e2: "bc_divide_st st1 num1 num2 z scale = (r2, st2, q)"
    by (metis prod_cases3)
  have nz1: "\<not> bc_is_zero (val st1 num2)" using nz k1[OF l2] by simp
  have f2: "r2 = 0" "fresh_result st1 st2 q qv z"
    using bc_divide_st_spec[OF ok1 _ _ _ nz1 e2, of zero_num] k1[OF l1] k1[OF l2] z1
    by (simp_all add: qv_def v1_def v2_def)
  note q2 = fresh_resultD[OF f2(2)]
  have ok2: "alloc_ok st2" using q2(1) by (rule changed_ok)
  have c02: "changed st st2 (\<lambda>y. 0)"
    by (rule changed_cong[OF changed_trans[OF c1 q2(1)]]) auto
  have k2: "live st2 y \<and> val st2 y = val st y \<and> n_refs (cells st2 y) = n_refs (cells st y)"
    if "live st y" for y
    using changed_keep[OF c02 that] by simp
  have qn: "\<not> live st q" using q2(2) k1 by blast
  (* quotient = bc_copy_num (temp) *)
  define st3 where "st3 = (if quot \<noteq> None then snd (bc_copy_num_st st2 q) else st2)"
  have e3: "(if quot \<noteq> None then bc_copy_num_st st2 q else (0, st2)) = (if quot \<noteq> None then q else 0, st3)"
    by (simp add: st3_def bc_copy_num_st_def)
  have c3: "changed st2 st3 (\<lambda>y. if y = q \<and> quot \<noteq> None then 1 else 0)"
  proof (cases "quot \<noteq> None")
    case True
    then show ?thesis using copy_changed(1)[OF ok2, of q] by (simp add: st3_def)
  next
    case False
    have "changed st2 st2 (\<lambda>y. 0)"
      using ok2 by (simp add: changed_def same_globals_def)
    then show ?thesis using False by (simp add: st3_def)
  qed
  have ok3: "alloc_ok st3" using c3 by (rule changed_ok)
  have q3: "live st3 q" "val st3 q = qv" "n_refs (cells st3 q) = (if quot \<noteq> None then 2 else 1)"
    using changed_grow[OF c3 q2(3)] q2(4,5) by auto
  have c03: "changed st st3 (\<lambda>y. 0)"
    by (rule changed_cong[OF changed_trans[OF c02 c3]]) (use qn in auto)
  have k3: "live st3 y \<and> val st3 y = val st y \<and> n_refs (cells st3 y) = n_refs (cells st y)"
    if "live st y" for y
    using changed_keep[OF c03 that] by simp
  (* bc_multiply (temp, num2, &temp, rscale) *)
  obtain st4 t where e4: "bc_multiply_st st3 q num2 q rscale = (st4, t)"
    by (metis prod.exhaust)
  have f4: "fresh_result st3 st4 t tv q"
    using bc_multiply_st_spec[OF ok3 q3(1) _ _ e4] q3 k3[OF l2]
    by (simp add: tv_def v2_def)
  note t4 = fresh_resultD[OF f4]
  have ok4: "alloc_ok st4" using t4(1) by (rule changed_ok)
  have c04: "changed st st4 (\<lambda>y. 0)"
    by (rule changed_cong[OF changed_trans[OF c03 t4(1)]]) (use qn in auto)
  have k4: "live st4 y \<and> val st4 y = val st y \<and> n_refs (cells st4 y) = n_refs (cells st y)"
    if "live st y" for y
    using changed_keep[OF c04 that] by simp
  have tn: "\<not> live st t" "t \<noteq> q" using t4(2) k3 q3(1) by blast+
  have q4: "quot \<noteq> None \<Longrightarrow> live st4 q \<and> val st4 q = qv \<and> n_refs (cells st4 q) = 1"
    using fresh_result_slot[OF f4 q3(1)] q3 by simp
  (* bc_sub (num1, temp, rem, rscale) *)
  obtain st5 r where e5: "bc_sub_st st4 num1 t rc rscale = (st5, r)"
    by (metis prod.exhaust)
  have rc4: "rc = 0 \<or> live st4 rc" using rc k4 by blast
  have f5: "fresh_result st4 st5 r rv rc"
    using bc_sub_st_spec[OF ok4 _ t4(3) rc4 e5] k4[OF l1] t4(4)
    by (simp add: rv_def v1_def)
  note r5 = fresh_resultD[OF f5]
  have ok5: "alloc_ok st5" using r5(1) by (rule changed_ok)
  have trc: "t \<noteq> rc" "q \<noteq> rc" using rc tn(1) qn t4(3) q3(1) by (auto dest: live_pos)
  have t5: "live st5 t" "n_refs (cells st5 t) = 1" "t \<noteq> r"
    using fresh_result_keep[OF f5 t4(3) trc(1)] t4(5) by simp_all
  have q5: "quot \<noteq> None \<Longrightarrow> live st5 q \<and> val st5 q = qv \<and> n_refs (cells st5 q) = 1 \<and> q \<noteq> r"
    using fresh_result_keep[of st4 st5 r rv rc q] f5 q4 trc(2) by simp
  have rn: "\<not> live st r" using r5(2) k4 by blast
  have c05: "changed st st5 (\<lambda>y. if y = rc then - 1 else 0)"
    by (rule changed_cong[OF changed_trans[OF c04 r5(1)]]) auto
  (* bc_free_num (&temp) *)
  define st6 where "st6 = bc_free_num_st st5 t"
  have c6: "changed st5 st6 (\<lambda>y. if y = t then - 1 else 0)"
    unfolding st6_def using free_changed[OF ok5] t5(1) by simp
  have ok6: "alloc_ok st6" using c6 by (rule changed_ok)
  have r6: "live st6 r" "val st6 r = rv" "n_refs (cells st6 r) = 1"
    using changed_keep[OF c6 r5(3)] t5(3) r5(4,5) by auto
  have q6: "quot \<noteq> None \<Longrightarrow> live st6 q \<and> val st6 q = qv \<and> n_refs (cells st6 q) = 1"
    using changed_keep[OF c6, of q] q5 tn(2) by auto
  have c06: "changed st st6 (\<lambda>y. if y = rc then - 1 else 0)"
    by (rule changed_cong[OF changed_trans[OF c05 c6]]) (use tn in auto)
  show ?thesis
  proof (cases quot)
    case None
    have "bc_divmod_st st num1 num2 quot rc scale = (0, st6, None, r)"
      unfolding bc_divmod_st_def Let_def rscale_def [symmetric]
      using nz None e3 by (simp add: e1 e2 e4 e5 st6_def z_def [symmetric])
    then show ?thesis using None c06 rn r6 pure by (auto simp: v1_def v2_def)
  next
    case (Some c)
    define st7 where "st7 = bc_free_num_st st6 c"
    have cl: "c = 0 \<or> live st c" and c2: "c = rc \<and> c \<noteq> 0 \<longrightarrow> 2 \<le> n_refs (cells st c)"
      using qc[OF Some] by auto
    have cl6: "c = 0 \<or> live st6 c"
    proof (cases "c = 0")
      case False
      then have l: "live st c" using cl by simp
      have "0 < n_refs (cells st c) + (if c = rc then - 1 else 0)"
        using c2 False l by (auto simp: live_def)
      then show ?thesis using changed_live(1)[OF c06 l] by simp
    qed simp
    have c7: "changed st6 st7 (\<lambda>y. if y = c then - 1 else 0)"
      unfolding st7_def by (rule free_changed[OF ok6 cl6])
    have rq: "r \<noteq> c" "q \<noteq> c" using cl rn qn r6(1) q6 Some by (auto dest: live_pos)
    have r7: "live st7 r" "val st7 r = rv" "n_refs (cells st7 r) = 1"
      using changed_keep[OF c7 r6(1)] rq r6 by auto
    have q7: "live st7 q" "val st7 q = qv" "n_refs (cells st7 q) = 1"
      using changed_keep[OF c7, of q] q6 rq Some by auto
    have c07: "changed st st7 (\<lambda>y. (if y = rc then - 1 else 0) + (if quot = Some y then - 1 else 0))"
      by (rule changed_cong[OF changed_trans[OF c06 c7]]) (use Some in auto)
    have "bc_divmod_st st num1 num2 quot rc scale = (0, st7, Some q, r)"
      unfolding bc_divmod_st_def Let_def rscale_def [symmetric]
      using nz Some e3 by (simp add: e1 e2 e4 e5 st6_def st7_def z_def [symmetric])
    then show ?thesis using Some c07 rn r7 q7 qn q5 pure by (auto simp: v1_def v2_def)
  qed
qed

subsection \<open>Ownership\<close>

lemma changed_refl: "alloc_ok st \<Longrightarrow> changed st st (\<lambda>y. 0)"
  by (simp add: changed_def same_globals_def)

lemma owns_empty: "alloc_ok st \<Longrightarrow> owns st st {#}"
  by (simp add: owns_def changed_refl)

lemma owns_ok: "owns st0 st H \<Longrightarrow> alloc_ok st"
  by (simp add: owns_def changed_def)

lemma owns_globals: "owns st0 st H \<Longrightarrow> g_zero st = g_zero st0 \<and> g_one st = g_one st0 \<and> g_two st = g_two st0"
  by (simp add: owns_def changed_def same_globals_def)

lemma owns_live0:
  assumes "owns st0 st H" "live st0 y"
  shows "live st y" "val st y = val st0 y" "n_refs (cells st y) = n_refs (cells st0 y) + int (count H y)"
  using changed_grow[of st0 st "\<lambda>y. int (count H y)" y] assms by (simp_all add: owns_def)

lemma owns_member:
  assumes "owns st0 st H" "x \<in># H"
  shows "live st x" "int (count H x) \<le> n_refs (cells st x)"
  using assms by (auto simp: owns_def)

lemma owns_not_live0:
  assumes "owns st0 st H" "\<not> live st p"
  shows "\<not> live st0 p" "p \<notin># H"
  using assms owns_live0(1) owns_member(1) by blast+

lemma owns_step:
  assumes o: "owns st0 st H" and sub: "R \<subseteq># H"
    and c: "changed st st' (\<lambda>y. - int (count R y))"
    and n: "distinct N" "\<And>p. p \<in> set N \<Longrightarrow> live st' p \<and> \<not> live st p"
  shows "owns st0 st' (H - R + mset N)"
    and "\<And>x. x \<in># H - R \<Longrightarrow> live st' x \<and> val st' x = val st x"
proof -
  have cnt: "int (count (H - R) y) = int (count H y) - int (count R y)"
    and cnt': "int (count H y - count R y) = int (count H y) - int (count R y)" for y
    using sub by (simp_all add: mset_subset_eq_count of_nat_diff)
  have keep: "live st' x \<and> val st' x = val st x \<and> n_refs (cells st' x) = n_refs (cells st x) - int (count R x)"
    if x: "x \<in># H - R" for x
  proof -
    have xin: "x \<in># H" using x by (rule in_diffD)
    have "count R x < count H x" using x by (simp add: count_greater_zero_iff[symmetric] del: count_greater_zero_iff)
    then have "0 < n_refs (cells st x) + - int (count R x)"
      using owns_member(2)[OF o xin] by linarith
    then show ?thesis using changed_live[OF c owns_member(1)[OF o xin]] by simp
  qed
  show "\<And>x. x \<in># H - R \<Longrightarrow> live st' x \<and> val st' x = val st x" using keep by blast
  have c0: "changed st0 st (\<lambda>y. int (count H y))" using o by (simp add: owns_def)
  have nN: "\<not> live st0 p \<and> p \<notin># H - R" if "p \<in> set N" for p
    using n(2)[OF that] owns_not_live0[OF o] by (auto dest: in_diffD)
  have c1: "changed st0 st' (\<lambda>y. int (count (H - R + mset N) y))"
  proof (rule changed_cong[OF changed_trans[OF c0 c]])
    fix y assume y: "live st0 y"
    then have "y \<notin> set N" using nN by blast
    then show "int (count H y) + - int (count R y) = int (count (H - R + mset N) y)"
      by (simp add: cnt' count_mset_0_iff [THEN iffD2])
  qed simp
  have mem: "live st' x \<and> int (count (H - R + mset N) x) \<le> n_refs (cells st' x)"
    if x: "x \<in># H - R + mset N" for x
  proof (cases "x \<in> set N")
    case True
    have "count (H - R) x = 0" using nN[OF True] not_in_iff[of x "H - R"] by blast
    moreover have "count (mset N) x = 1" using True n(1) by (simp add: distinct_count_atmost_1)
    ultimately have "count (H - R + mset N) x = 1" by (simp only: count_union)
    moreover have "live st' x" using n(2)[OF True] by simp
    ultimately show ?thesis by (simp add: live_def)
  next
    case False
    then have xi: "x \<in># H - R" using x by auto
    have xin: "x \<in># H" using xi by (rule in_diffD)
    have "int (count (H - R + mset N) x) = int (count H x) - int (count R x)"
      using False by (simp add: cnt' count_mset_0_iff [THEN iffD2])
    then show ?thesis using keep[OF xi] owns_member(2)[OF o xin] by simp
  qed
  show "owns st0 st' (H - R + mset N)" using c1 mem by (simp add: owns_def)
qed

lemma owns_copy:
  assumes o: "owns st0 st H" and x: "live st x"
  shows "owns st0 (snd (bc_copy_num_st st x)) (add_mset x H)"
    and "\<And>y. val (snd (bc_copy_num_st st x)) y = val st y"
proof -
  let ?st' = "snd (bc_copy_num_st st x)"
  have c: "changed st ?st' (\<lambda>y. if y = x then 1 else 0)"
    by (rule copy_changed(1)[OF owns_ok[OF o]])
  have c0: "changed st0 st (\<lambda>y. int (count H y))" using o by (simp add: owns_def)
  have c1: "changed st0 ?st' (\<lambda>y. int (count (add_mset x H) y))"
    by (rule changed_cong[OF changed_trans[OF c0 c]]) auto
  have mem: "live ?st' z \<and> int (count (add_mset x H) z) \<le> n_refs (cells ?st' z)"
    if z: "z \<in># add_mset x H" for z
  proof -
    have lz: "live st z" using z x owns_member(1)[OF o] by auto
    have cz: "int (count H z) \<le> n_refs (cells st z)"
    proof (cases "z \<in># H")
      case True then show ?thesis by (rule owns_member(2)[OF o])
    next
      case False
      then show ?thesis using lz by (simp add: live_def count_eq_zero_iff [THEN iffD2])
    qed
    show ?thesis using changed_grow[OF c lz] cz by auto
  qed
  show "owns st0 ?st' (add_mset x H)" using c1 mem by (simp add: owns_def)
  show "\<And>y. val ?st' y = val st y" by (simp add: bc_copy_num_st_def val_def)
qed

lemma owns_warn:
  assumes "owns st0 st H"
  shows "owns st0 (rt_warn st m) H" "owns st0 (rt_error st m) H"
  using assms
  by (simp_all add: owns_def changed_def same_globals_def alloc_ok_def live_def val_def
      rt_warn_def rt_error_def)

lemma warn_simps [simp]:
  "cells (rt_warn st m) = cells st" "val (rt_warn st m) = val st"
  "g_zero (rt_warn st m) = g_zero st" "g_one (rt_warn st m) = g_one st" "g_two (rt_warn st m) = g_two st"
  "cells (rt_error st m) = cells st" "val (rt_error st m) = val st"
  "g_zero (rt_error st m) = g_zero st" "g_one (rt_error st m) = g_one st" "g_two (rt_error st m) = g_two st"
  by (simp_all add: rt_warn_def rt_error_def val_def fun_eq_iff)

lemma owned_fresh:
  assumes o: "owns st0 st H" and c: "c \<in># H" and f: "fresh_result st st' p v c"
  shows "owns st0 st' (add_mset p (H - {#c#}))"
    and "\<not> live st0 p" and "p \<notin># H" and "val st' p = v"
    and "\<And>x. x \<in># H - {#c#} \<Longrightarrow> live st' x \<and> val st' x = val st x"
proof -
  note d = fresh_resultD[OF f]
  have ch: "changed st st' (\<lambda>y. - int (count {#c#} y))"
    by (rule changed_cong[OF d(1)]) simp
  have sub: "{#c#} \<subseteq># H" using c by simp
  have n: "distinct [p]" "\<And>q. q \<in> set [p] \<Longrightarrow> live st' q \<and> \<not> live st q"
    using d(2,3) by simp_all
  show "owns st0 st' (add_mset p (H - {#c#}))"
    using owns_step(1)[OF o sub ch n] by simp
  show "\<And>x. x \<in># H - {#c#} \<Longrightarrow> live st' x \<and> val st' x = val st x"
    using owns_step(2)[OF o sub ch n] by blast
  show "\<not> live st0 p" "p \<notin># H" using owns_not_live0[OF o d(2)] by simp_all
  show "val st' p = v" by (rule d(4))
qed

lemma bc_modulo_st_spec:
  assumes ok: "alloc_ok st" and l1: "live st a" and l2: "live st md" and lz: "live st (g_zero st)"
    and c: "c = 0 \<or> live st c" and nz: "\<not> bc_is_zero (val st md)"
  shows "\<exists>st' p. bc_modulo_st st a md c scale = (0, st', p)
      \<and> fresh_result st st' p (snd (bc_modulo (val st a) (val st md) (val st c) scale)) c"
proof -
  from bc_divmod_st_spec[OF ok l1 l2 lz c _ nz, of None scale]
  obtain st' q r where
    e: "bc_divmod_st st a md None c scale = (0, st', None, r)"
    and ch: "changed st st' (\<lambda>y. (if y = c then - 1 else 0) + (if None = Some y then - 1 else 0))"
    and r: "\<not> live st r" "live st' r" "n_refs (cells st' r) = 1"
      "val st' r = snd (snd (bc_divmod (val st a) (val st md) None (val st c) scale))"
    by auto
  have ch': "changed st st' (\<lambda>y. if y = c then - 1 else 0)"
    by (rule changed_cong[OF ch]) simp
  have v: "snd (snd (bc_divmod (val st a) (val st md) None (val st c) scale))
      = snd (bc_modulo (val st a) (val st md) (val st c) scale)"
    by (simp add: bc_modulo_def split: prod.splits)
  show ?thesis
    using e ch' r by (simp add: bc_modulo_st_def fresh_result_def v)
qed

lemma owned_mulmod:
  assumes o: "owns st0 st H" and a: "a \<in># H" and b: "b \<in># H" and c: "c \<in># H"
    and md: "live st0 md" "\<not> bc_is_zero (val st0 md)" and z: "live st0 (g_zero st0)"
  shows "\<exists>st' p.
      (case bc_multiply_st st a b c rscale of
         (st, t) \<Rightarrow> (case bc_modulo_st st t md t scale of (_, st, t) \<Rightarrow> (st, t))) = (st', p)
    \<and> owns st0 st' (add_mset p (H - {#c#}))
    \<and> val st' p = snd (bc_modulo (bc_multiply (val st a) (val st b) rscale) (val st0 md)
                        (bc_multiply (val st a) (val st b) rscale) scale)
    \<and> \<not> live st0 p
    \<and> (\<forall>x. x \<in># H - {#c#} \<longrightarrow> live st' x \<and> val st' x = val st x)"
proof -
  obtain st1 t where e1: "bc_multiply_st st a b c rscale = (st1, t)" by (metis prod.exhaust)
  have f1: "fresh_result st st1 t (bc_multiply (val st a) (val st b) rscale) c"
    using bc_multiply_st_spec[OF owns_ok[OF o] _ _ _ e1] owns_member(1)[OF o] a b c by simp
  note s1 = owned_fresh[OF o c f1]
  let ?H1 = "add_mset t (H - {#c#})"
  have t1: "t \<in># ?H1" by simp
  have l1: "live st1 t" "live st1 md" "live st1 (g_zero st1)" "\<not> bc_is_zero (val st1 md)"
    using owns_member(1)[OF s1(1) t1] owns_live0[OF s1(1) md(1)] owns_live0[OF s1(1) z]
      owns_globals[OF s1(1)] md(2) by simp_all
  from bc_modulo_st_spec[OF owns_ok[OF s1(1)] l1(1) l1(2) l1(3) _ l1(4), of t scale] l1(1)
  obtain st2 p where e2: "bc_modulo_st st1 t md t scale = (0, st2, p)"
    and f2: "fresh_result st1 st2 p (snd (bc_modulo (val st1 t) (val st1 md) (val st1 t) scale)) t"
    by auto
  note s2 = owned_fresh[OF s1(1) t1 f2]
  have H2: "add_mset p (?H1 - {#t#}) = add_mset p (H - {#c#})" by simp
  have keep: "live st2 x \<and> val st2 x = val st x" if x: "x \<in># H - {#c#}" for x
  proof -
    have "x \<in># ?H1 - {#t#}" using x by simp
    then show ?thesis using s2(5)[of x] s1(5)[OF x] by simp
  qed
  have v: "val st2 p = snd (bc_modulo (bc_multiply (val st a) (val st b) rscale) (val st0 md)
                        (bc_multiply (val st a) (val st b) rscale) scale)"
    using s2(4) s1(4) owns_live0(2)[OF s1(1) md(1)] by simp
  have np: "\<not> live st0 p" using s2(2) .
  show ?thesis
    using e1 e2 s2(1) v np keep unfolding H2 by auto
qed

lemma owned_divmod:
  assumes o: "owns st0 st H" and sub: "{#parity, exponent#} \<subseteq># H"
    and two: "live st0 (g_two st0)" "val st0 (g_two st0) = two_num" and z: "live st0 (g_zero st0)"
  shows "\<exists>st' q r.
      bc_divmod_st st exponent (g_two st) (Some exponent) parity 0 = (0, st', Some q, r)
    \<and> owns st0 st' (add_mset q (add_mset r (H - {#parity, exponent#})))
    \<and> (0, Some (val st' q), val st' r) =
         bc_divmod (val st exponent) two_num (Some (val st exponent)) (val st parity) 0
    \<and> \<not> live st0 q \<and> \<not> live st0 r
    \<and> (\<forall>x. x \<in># H - {#parity, exponent#} \<longrightarrow> live st' x \<and> val st' x = val st x)"
proof -
  have e: "exponent \<in># H" and p: "parity \<in># H"
    using sub by (auto dest: mset_subset_eqD)
  note gl = owns_globals[OF o]
  have l: "live st exponent" "live st parity" "live st (g_two st)" "live st (g_zero st)"
    and v2: "val st (g_two st) = two_num"
    using owns_member(1)[OF o e] owns_member(1)[OF o p] owns_live0[OF o two(1)] owns_live0[OF o z] gl two(2)
    by simp_all
  have nz: "\<not> bc_is_zero (val st (g_two st))"
    by (simp add: v2 two_num_def bc_new_num_def bc_is_zero_def)
  have qc: "(c = 0 \<or> live st c) \<and> (c = parity \<and> c \<noteq> 0 \<longrightarrow> 2 \<le> n_refs (cells st c))"
    if "Some exponent = Some c" for c
  proof -
    have ce: "c = exponent" using that by simp
    have "2 \<le> n_refs (cells st c)" if "c = parity"
    proof -
      have "count {#parity, exponent#} c \<le> count H c"
        using sub by (rule mset_subset_eq_count)
      then have "2 \<le> count H c" using that ce by simp
      then have "2 \<le> int (count H exponent)" using ce by simp
      then show ?thesis using owns_member(2)[OF o e] ce by simp
    qed
    then show ?thesis using l(1) ce by simp
  qed
  have spec: "\<exists>st' q r.
      bc_divmod_st st exponent (g_two st) (Some exponent) parity 0 = (0, st', Some q, r)
    \<and> changed st st' (\<lambda>y. (if y = parity then - 1 else 0) + (if Some exponent = Some y then - 1 else 0))
    \<and> \<not> live st r \<and> live st' r \<and> n_refs (cells st' r) = 1
    \<and> val st' r = snd (snd (bc_divmod (val st exponent) (val st (g_two st)) (Some (val st exponent)) (val st parity) 0))
    \<and> \<not> live st q \<and> live st' q \<and> n_refs (cells st' q) = 1 \<and> q \<noteq> r
    \<and> Some (val st' q) = fst (snd (bc_divmod (val st exponent) (val st (g_two st)) (Some (val st exponent)) (val st parity) 0))"
    using bc_divmod_st_spec[where quot = "Some exponent" and rc = parity and scale = 0, OF owns_ok[OF o] l(1) l(3) l(4) _ qc nz] l(2)
    by (simp only: option.map option.distinct not_False_eq_True simp_thms)
  from spec
  obtain st' q r where
    eq: "bc_divmod_st st exponent (g_two st) (Some exponent) parity 0 = (0, st', Some q, r)"
    and ch: "changed st st' (\<lambda>y. (if y = parity then - 1 else 0) + (if Some exponent = Some y then - 1 else 0))"
    and r: "\<not> live st r" "live st' r"
      "val st' r = snd (snd (bc_divmod (val st exponent) (val st (g_two st)) (Some (val st exponent)) (val st parity) 0))"
    and q: "\<not> live st q" "live st' q" "q \<noteq> r"
      "Some (val st' q) = fst (snd (bc_divmod (val st exponent) (val st (g_two st)) (Some (val st exponent)) (val st parity) 0))"
    by blast
  have ch': "changed st st' (\<lambda>y. - int (count {#parity, exponent#} y))"
    by (rule changed_cong[OF ch]) auto
  have n: "distinct [q, r]" "\<And>x. x \<in> set [q, r] \<Longrightarrow> live st' x \<and> \<not> live st x"
    using q r by auto
  have o': "owns st0 st' (add_mset q (add_mset r (H - {#parity, exponent#})))"
    using owns_step(1)[OF o sub ch' n] by (simp add: add_mset_commute)
  have st0: "fst (bc_divmod (val st exponent) two_num (Some (val st exponent)) (val st parity) 0) = 0"
    by (simp add: bc_divmod_def two_num_def bc_new_num_def bc_is_zero_def Let_def)
  have pv: "(0, Some (val st' q), val st' r) =
         bc_divmod (val st exponent) two_num (Some (val st exponent)) (val st parity) 0"
    using q(4) r(3) st0 unfolding v2 by (metis prod.collapse)
  show ?thesis
    using eq o' pv owns_not_live0(1)[OF o q(1)] owns_not_live0(1)[OF o r(1)]
      owns_step(2)[OF o sub ch' n] by blast
qed

subsection \<open>The loop of \<open>bc_raisemod\<close>\<close>

text \<open>
  The loop returns: it runs as the loop of the value layer does, on the handles
  \<open>power\<close>, \<open>exponent\<close>, \<open>temp\<close> and \<open>parity\<close> that the routine owns.  When the
  exponent is not zero the \<open>temp\<close> and \<open>parity\<close> it ends with are cells allocated on
  the way.
\<close>

lemma bc_multiply_zero: "n_value a = 0 \<Longrightarrow> n_value (bc_multiply a b s) = 0"
  by (simp add: bc_multiply_def Let_def mpz_tdiv_q_def)

lemma bc_sub_zero_right: "n_value b = 0 \<Longrightarrow> n_value a \<noteq> 0 \<Longrightarrow> n_value (bc_sub a b s) \<noteq> 0"
  by (simp add: bc_sub_def Let_def)

lemma divmod_two_even:
  assumes e: "\<not> bc_is_zero e"
    and d: "(0, Some q, r) = bc_divmod e two_num (Some e) par 0"
    and r: "bc_is_zero r"
  shows "\<not> bc_is_zero q"
proof
  assume q: "bc_is_zero q"
  define rscale where "rscale = MAX_int (n_scale e) (n_scale two_num + 0)"
  have nz: "\<not> bc_is_zero two_num" by (simp add: two_num_def bc_new_num_def bc_is_zero_def)
  have qe: "q = snd (bc_divide e two_num zero_num 0)"
    and re: "r = bc_sub e (bc_multiply q two_num rscale) rscale"
    using d nz by (simp_all add: bc_divmod_def Let_def rscale_def)
  have "n_value q = 0" using q by (simp add: bc_is_zero_def sgn_eq_0_iff)
  then have "n_value (bc_multiply q two_num rscale) = 0" by (rule bc_multiply_zero)
  moreover have "n_value e \<noteq> 0" using e by (simp add: bc_is_zero_def sgn_eq_0_iff)
  ultimately have "n_value r \<noteq> 0" unfolding re by (rule bc_sub_zero_right)
  then show False using r by (simp add: bc_is_zero_def sgn_eq_0_iff)
qed

lemma raisemod_loop_st_spec:
  assumes md: "live st0 md" "\<not> bc_is_zero (val st0 md)"
    and two: "live st0 (g_two st0)" "val st0 (g_two st0) = two_num" and z: "live st0 (g_zero st0)"
  shows "owns st0 st {#pwr, exponent, temp, parity#} \<Longrightarrow>
     vp = val st pwr \<Longrightarrow> ve = val st exponent \<Longrightarrow> vt = val st temp \<Longrightarrow> vq = val st parity \<Longrightarrow>
     vm = val st0 md \<Longrightarrow>
     \<exists>st' pwr' e' temp' par'.
        raisemod_loop_st st pwr exponent temp parity md scale rscale = Some (st', pwr', e', temp', par')
      \<and> owns st0 st' {#pwr', e', temp', par'#}
      \<and> val st' temp' = raisemod_loop vp ve vt vq vm scale rscale
      \<and> (if bc_is_zero ve then temp' = temp \<and> par' = parity
          else \<not> live st0 temp' \<and> \<not> live st0 par')"
proof (induction vp ve vt vq vm scale rscale arbitrary: st pwr exponent temp parity
    rule: raisemod_loop.induct)
  case (1 vp ve vt vq vm scale rscale)
  note o = "1.prems"(1) and v = "1.prems"(2-6)
  show ?case
  proof (cases "bc_is_zero ve")
    case True
    have a: "raisemod_loop_st st pwr exponent temp parity md scale rscale
        = Some (st, pwr, exponent, temp, parity)"
      using True v by (subst raisemod_loop_st.simps) simp
    have b: "raisemod_loop vp ve vt vq vm scale rscale = vt"
      using True by (subst raisemod_loop.simps) simp
    show ?thesis using a b o v True by simp
  next
    case False
    have sub: "{#parity, exponent#} \<subseteq># {#pwr, exponent, temp, parity#}" by simp
    have Hd: "{#pwr, exponent, temp, parity#} - {#parity, exponent#} = {#pwr, temp#}" by simp
    from owned_divmod[OF o sub two z]
    obtain st1 q r where
      D: "bc_divmod_st st exponent (g_two st) (Some exponent) parity 0 = (0, st1, Some q, r)"
      and o1: "owns st0 st1 {#q, r, pwr, temp#}"
      and pv: "(0, Some (val st1 q), val st1 r) = bc_divmod ve two_num (Some ve) vq 0"
      and fr: "\<not> live st0 q" "\<not> live st0 r"
      and k1: "\<And>x. x \<in># {#pwr, temp#} \<Longrightarrow> live st1 x \<and> val st1 x = val st x"
      unfolding Hd v by blast
    have v1: "val st1 pwr = vp" "val st1 temp = vt" using k1 v by simp_all
    define vt' where "vt' = (if \<not> bc_is_zero (val st1 r)
        then snd (bc_modulo (bc_multiply vt vp rscale) vm (bc_multiply vt vp rscale) scale) else vt)"
    have T: "\<exists>st3 t'.
        (if \<not> bc_is_zero (val st1 r)
         then (case bc_multiply_st st1 temp pwr temp rscale of
                 (st, temp) \<Rightarrow>
                   (case bc_modulo_st st temp md temp scale of (_, st, temp) \<Rightarrow> (st, temp)))
         else (st1, temp)) = (st3, t')
      \<and> owns st0 st3 {#q, r, pwr, t'#} \<and> val st3 t' = vt'
      \<and> (\<not> bc_is_zero (val st1 r) \<longrightarrow> \<not> live st0 t')
      \<and> val st3 pwr = vp \<and> val st3 q = val st1 q \<and> val st3 r = val st1 r"
    proof (cases "bc_is_zero (val st1 r)")
      case True
      then show ?thesis using o1 v1 by (simp add: vt'_def)
    next
      case nz: False
      have Ht: "add_mset p ({#q, r, pwr, temp#} - {#temp#}) = {#q, r, pwr, p#}" for p
        by (simp add: add_mset_commute)
      have Hk: "{#q, r, pwr, temp#} - {#temp#} = {#q, r, pwr#}" by simp
      from owned_mulmod[where a = temp and b = pwr and c = temp and rscale = rscale and scale = scale,
          OF o1 _ _ _ md z]
      obtain st3 p where
        e: "(case bc_multiply_st st1 temp pwr temp rscale of
              (st, t) \<Rightarrow> (case bc_modulo_st st t md t scale of (_, st, t) \<Rightarrow> (st, t))) = (st3, p)"
        and o3': "owns st0 st3 (add_mset p ({#q, r, pwr, temp#} - {#temp#}))"
        and pvl: "val st3 p = snd (bc_modulo (bc_multiply (val st1 temp) (val st1 pwr) rscale) (val st0 md)
                        (bc_multiply (val st1 temp) (val st1 pwr) rscale) scale)"
        and np: "\<not> live st0 p"
        and k3': "\<forall>x. x \<in># {#q, r, pwr, temp#} - {#temp#} \<longrightarrow> live st3 x \<and> val st3 x = val st1 x"
        by auto
      note o3 = o3'[unfolded Ht]
      have k3: "val st3 pwr = val st1 pwr" "val st3 q = val st1 q" "val st3 r = val st1 r"
        using k3' unfolding Hk by simp_all
      have ifeq: "(if \<not> bc_is_zero (val st1 r)
         then (case bc_multiply_st st1 temp pwr temp rscale of
                 (st, temp) \<Rightarrow>
                   (case bc_modulo_st st temp md temp scale of (_, st, temp) \<Rightarrow> (st, temp)))
         else (st1, temp)) = (st3, p)"
        using nz e by (simp only: not_False_eq_True if_True)
      have tv: "val st3 p = vt'" using nz pvl v1 v(5) by (simp add: vt'_def)
      have kk: "val st3 pwr = vp" using k3 v1 by simp
      show ?thesis using ifeq o3 tv np kk k3(2,3) by blast
    qed
    then obtain st3 t' where
      Te: "(if \<not> bc_is_zero (val st1 r)
         then (case bc_multiply_st st1 temp pwr temp rscale of
                 (st, temp) \<Rightarrow>
                   (case bc_modulo_st st temp md temp scale of (_, st, temp) \<Rightarrow> (st, temp)))
         else (st1, temp)) = (st3, t')"
      and o3: "owns st0 st3 {#q, r, pwr, t'#}" and t3: "val st3 t' = vt'"
      and tn: "\<not> bc_is_zero (val st1 r) \<longrightarrow> \<not> live st0 t'"
      and v3: "val st3 pwr = vp" "val st3 q = val st1 q" "val st3 r = val st1 r"
      by blast
    have Hp: "add_mset p ({#q, r, pwr, t'#} - {#pwr#}) = {#p, q, t', r#}" for p
      by (simp add: add_mset_commute)
    have Hk: "{#q, r, pwr, t'#} - {#pwr#} = {#q, r, t'#}" by simp
    from owned_mulmod[where a = pwr and b = pwr and c = pwr and rscale = rscale and scale = scale,
        OF o3 _ _ _ md z]
    obtain st5 p2 where
      P: "(case bc_multiply_st st3 pwr pwr pwr rscale of
              (st, t) \<Rightarrow> (case bc_modulo_st st t md t scale of (_, st, t) \<Rightarrow> (st, t))) = (st5, p2)"
      and o5': "owns st0 st5 (add_mset p2 ({#q, r, pwr, t'#} - {#pwr#}))"
      and p5: "val st5 p2 = snd (bc_modulo (bc_multiply (val st3 pwr) (val st3 pwr) rscale) (val st0 md)
                        (bc_multiply (val st3 pwr) (val st3 pwr) rscale) scale)"
      and k5': "\<forall>x. x \<in># {#q, r, pwr, t'#} - {#pwr#} \<longrightarrow> live st5 x \<and> val st5 x = val st3 x"
      by auto
    note o5 = o5'[unfolded Hp]
    have k5: "val st5 q = val st3 q" "val st5 r = val st3 r" "val st5 t' = val st3 t'"
      using k5' unfolding Hk by simp_all
    have v5: "val st5 q = val st1 q" "val st5 r = val st1 r" "val st5 t' = vt'"
      using k5 v3 t3 by simp_all
    have a1: "snd (bc_modulo (bc_multiply vp vp rscale) vm (bc_multiply vp vp rscale) scale) = val st5 p2"
      using p5 v3(1) v(5) by simp
    have a2: "(case Some (val st1 q) of None \<Rightarrow> ve | Some e \<Rightarrow> e) = val st5 q"
      using v5(1) by simp
    have a3: "(if \<not> bc_is_zero (val st1 r)
        then snd (bc_modulo (bc_multiply vt vp rscale) vm (bc_multiply vt vp rscale) scale) else vt)
        = val st5 t'"
      using v5(3) by (simp only: vt'_def)
    have a4: "val st1 r = val st5 r" using v5(2) by simp
    have ih: "\<exists>st' pwr' e' temp' par'.
        raisemod_loop_st st5 p2 q t' r md scale rscale = Some (st', pwr', e', temp', par')
      \<and> owns st0 st' {#pwr', e', temp', par'#}
      \<and> val st' temp' = raisemod_loop
           (snd (bc_modulo (bc_multiply vp vp rscale) vm (bc_multiply vp vp rscale) scale))
           (val st1 q) vt' (val st1 r) vm scale rscale
      \<and> (if bc_is_zero (val st1 q) then temp' = t' \<and> par' = r
          else \<not> live st0 temp' \<and> \<not> live st0 par')"
      using "1.IH"[OF False pv refl o5 a1 a2 a3 a4 v(5)] unfolding vt'_def
      by (simp only: option.case)
    have pure: "raisemod_loop vp ve vt vq vm scale rscale = raisemod_loop
           (snd (bc_modulo (bc_multiply vp vp rscale) vm (bc_multiply vp vp rscale) scale))
           (val st1 q) vt' (val st1 r) vm scale rscale"
      using False pv[symmetric] by (subst raisemod_loop.simps) (simp add: vt'_def)
    have step: "raisemod_loop_st st pwr exponent temp parity md scale rscale
        = raisemod_loop_st st5 p2 q t' r md scale rscale"
    proof -
      have nzs: "\<not> bc_is_zero (val st exponent)" using False v by simp
      obtain sa ta where m: "bc_multiply_st st3 pwr pwr pwr rscale = (sa, ta)"
        by (metis surj_pair)
      obtain x sb tb where mo: "bc_modulo_st sa ta md ta scale = (x, sb, tb)"
        by (metis surj_pair)
      have fin: "sb = st5" "tb = p2" using P m mo by simp_all
      show ?thesis
        apply (subst raisemod_loop_st.simps)
        apply (simp only: nzs if_False D prod.case Te option.case m mo fin)
        done
    qed
    have ev: "bc_is_zero (val st1 q) \<Longrightarrow> \<not> bc_is_zero (val st1 r)"
      using divmod_two_even[OF False pv] by blast
    show ?thesis using ih tn fr ev False unfolding pure step
      by (auto split: if_splits)
  qed
qed

subsection \<open>\<open>bc_raisemod\<close> on the store\<close>

lemma changed_trans_gen:
  assumes a: "changed st st1 d1" and b: "changed st1 st2 d2"
    and o: "\<And>y. live st y \<Longrightarrow> 0 < n_refs (cells st y) + (d1 y + d2 y) \<Longrightarrow> 0 < n_refs (cells st y) + d1 y"
  shows "changed st st2 (\<lambda>y. d1 y + d2 y)"
proof -
  have "live st2 y \<and> val st2 y = val st y \<and> n_refs (cells st2 y) = n_refs (cells st y) + (d1 y + d2 y)"
    if y: "live st y" "0 < n_refs (cells st y) + (d1 y + d2 y)" for y
  proof -
    note s1 = changed_live[OF a y(1) o[OF y]]
    have "0 < n_refs (cells st1 y) + d2 y" using s1(3) y(2) by simp
    note s2 = changed_live[OF b s1(1) this]
    show ?thesis using s1 s2 by simp
  qed
  moreover have "same_globals st st2" using changed_globals[OF a] changed_globals[OF b]
    by (simp add: same_globals_def)
  ultimately show ?thesis using changed_ok[OF b] by (simp add: changed_def)
qed

lemma owned_release:
  assumes o: "owns st0 st H" and x: "x \<in># H"
  shows "owns st0 (bc_free_num_st st x) (H - {#x#})"
    and "\<And>y. y \<in># H - {#x#} \<Longrightarrow> live (bc_free_num_st st x) y \<and> val (bc_free_num_st st x) y = val st y"
proof -
  have l: "x = 0 \<or> live st x" using owns_member(1)[OF o x] by simp
  have ch: "changed st (bc_free_num_st st x) (\<lambda>y. - int (count {#x#} y))"
    by (rule changed_cong[OF free_changed[OF owns_ok[OF o] l]]) simp
  have sub: "{#x#} \<subseteq># H" using x by simp
  have n: "distinct ([] :: bc_num list)"
    "\<And>q. q \<in> set ([] :: bc_num list) \<Longrightarrow> live (bc_free_num_st st x) q \<and> \<not> live st q"
    by simp_all
  show "owns st0 (bc_free_num_st st x) (H - {#x#})"
    using owns_step(1)[OF o sub ch n] by simp
  show "\<And>y. y \<in># H - {#x#} \<Longrightarrow> live (bc_free_num_st st x) y \<and> val (bc_free_num_st st x) y = val st y"
    using owns_step(2)[OF o sub ch n] by blast
qed

lemma raisemod_finish:
  assumes o: "owns st0 st {#pwr, e, temp, par#}" and c: "c = 0 \<or> live st0 c"
  shows "changed st0 (bc_free_num_st (bc_free_num_st (bc_free_num_st st pwr) e) c)
           (\<lambda>y. int (count {#temp, par#} y) + (if y = c then - 1 else 0))"
    and "live (bc_free_num_st (bc_free_num_st (bc_free_num_st st pwr) e) c) temp"
    and "val (bc_free_num_st (bc_free_num_st (bc_free_num_st st pwr) e) c) temp = val st temp"
proof -
  let ?s1 = "bc_free_num_st st pwr"
  let ?s2 = "bc_free_num_st ?s1 e"
  let ?s3 = "bc_free_num_st ?s2 c"
  have H1: "{#pwr, e, temp, par#} - {#pwr#} = {#e, temp, par#}" by simp
  have H2: "{#e, temp, par#} - {#e#} = {#temp, par#}" by simp
  have o1: "owns st0 ?s1 {#e, temp, par#}"
    and k1: "\<And>y. y \<in># {#e, temp, par#} \<Longrightarrow> live ?s1 y \<and> val ?s1 y = val st y"
    using owned_release[OF o, of pwr] unfolding H1 by simp_all
  have o2: "owns st0 ?s2 {#temp, par#}"
    and k2: "\<And>y. y \<in># {#temp, par#} \<Longrightarrow> live ?s2 y \<and> val ?s2 y = val ?s1 y"
    using owned_release[OF o1, of e] unfolding H2 by simp_all
  have v2: "live ?s2 temp" "val ?s2 temp = val st temp"
    using k2[of temp] k1[of temp] by simp_all
  have c2: "c = 0 \<or> live ?s2 c" using c owns_live0(1)[OF o2] by blast
  note f = free_changed[OF owns_ok[OF o2] c2]
  have c0: "changed st0 ?s2 (\<lambda>y. int (count {#temp, par#} y))" using o2 by (simp add: owns_def)
  show "changed st0 ?s3 (\<lambda>y. int (count {#temp, par#} y) + (if y = c then - 1 else 0))"
    by (rule changed_trans[OF c0 f]) simp
  have pos: "0 < n_refs (cells ?s2 temp) + (if temp = c then - 1 else 0)"
  proof (cases "temp = c")
    case True
    then have "live st0 temp" using c v2(1) by (auto simp: live_def)
    then have "n_refs (cells ?s2 temp) = n_refs (cells st0 temp) + int (count {#temp, par#} temp)"
      "0 < n_refs (cells st0 temp)"
      using owns_live0(3)[OF o2] by (simp_all add: live_def)
    moreover have "1 \<le> int (count {#temp, par#} temp)" by simp
    ultimately have "0 < n_refs (cells ?s2 temp) + - 1" by linarith
    then show ?thesis using True by simp
  next
    case False
    then show ?thesis using v2(1) by (simp add: live_def)
  qed
  show "live ?s3 temp" "val ?s3 temp = val st temp"
    using changed_live[OF f v2(1) pos] v2(2) by simp_all
qed

lemma copy_simps [simp]:
  "fst (bc_copy_num_st st x) = x"
  "g_zero (snd (bc_copy_num_st st x)) = g_zero st"
  "g_one (snd (bc_copy_num_st st x)) = g_one st"
  "g_two (snd (bc_copy_num_st st x)) = g_two st"
  by (simp_all add: bc_copy_num_st_def)

lemma n_scale_val [simp]: "n_scale (val st x) = n_scale (cells st x)" "n_value (val st x) = n_value (cells st x)"
  by (simp_all add: val_def)

lemma trunc_zero_iff:
  "bc_is_zero (if n_scale e \<noteq> 0 then snd (bc_divide e one_num w 0) else e)
     \<longleftrightarrow> mpz_tdiv_q (n_value e) (10 ^ nat (n_scale e)) = 0"
proof -
  have p: "(0::int) < 10 ^ k" for k by simp
  have a: "(mpz_tdiv_q (x * 10 ^ k) 1 = 0) = (x = 0)" for x :: int and k by simp
  show ?thesis
    by (cases "n_scale e = 0"; cases "n_scale e < 0")
      (simp_all add: bc_divide_def bc_is_zero_def one_num_def bc_new_num_def Let_def sgn_eq_0_iff)
qed

lemma bc_raisemod_st_spec:
  assumes ok: "alloc_ok st" and lb: "live st base" and le: "live st expo" and lm: "live st md"
    and gz: "live st (g_zero st)" "val st (g_zero st) = zero_num"
    and go: "live st (g_one st)" "val st (g_one st) = one_num"
    and gt: "live st (g_two st)" "val st (g_two st) = two_num"
    and c: "c = 0 \<or> live st c"
    and nz: "\<not> bc_is_zero (val st md)" and nn: "\<not> bc_is_neg (val st expo)"
  shows "\<exists>st' p. bc_raisemod_st st base expo md c scale = Some (0, st', p)
      \<and> live st' p
      \<and> (\<forall>w. val st' p = snd (bc_raisemod (val st base) (val st expo) (val st md) w scale))
      \<and> (if mpz_tdiv_q (n_value (cells st expo)) (10 ^ nat (n_scale (cells st expo))) = 0
          then p = g_one st
             \<and> changed st st' (\<lambda>y. (if y = g_one st then 1 else 0) + (if y = g_zero st then 1 else 0)
                                     + (if y = c then - 1 else 0))
          else \<not> live st p \<and> changed st st' (\<lambda>y. if y = c then - 1 else 0))"
proof -
  define one where "one = g_one st"
  define zero where "zero = g_zero st"
  define ve where "ve = (if n_scale (val st expo) \<noteq> 0
      then snd (bc_divide (val st expo) one_num (val st expo) 0) else val st expo)"
  define rscale where "rscale = MAX_int scale (n_scale (val st base))"
  (* Set initial values. *)
  define st1 where "st1 = snd (bc_copy_num_st st base)"
  define st2 where "st2 = snd (bc_copy_num_st st1 expo)"
  define st3 where "st3 = snd (bc_copy_num_st st2 (g_one st2))"
  define st4 where "st4 = snd (bc_init_num_st st3)"
  have e1: "bc_copy_num_st st base = (base, st1)" by (simp add: st1_def prod_eq_iff)
  have e2: "bc_copy_num_st st1 expo = (expo, st2)" by (simp add: st2_def prod_eq_iff)
  have e3: "bc_copy_num_st st2 (g_one st2) = (one, st3)"
    by (simp add: st3_def st2_def st1_def one_def prod_eq_iff)
  have e4: "bc_init_num_st st3 = (zero, st4)"
    by (simp add: st4_def st3_def st2_def st1_def zero_def bc_init_num_st_def prod_eq_iff)
  have o1: "owns st st1 {#base#}" unfolding st1_def by (rule owns_copy(1)[OF owns_empty[OF ok] lb])
  have o2: "owns st st2 {#expo, base#}"
    unfolding st2_def by (rule owns_copy(1)[OF o1 owns_live0(1)[OF o1 le]])
  have g2: "g_one st2 = one" using owns_globals[OF o2] by (simp add: one_def)
  have o3: "owns st st3 {#one, expo, base#}"
    unfolding st3_def g2 using owns_copy(1)[OF o2 owns_live0(1)[OF o2 go(1)]] by (simp add: one_def)
  have g3: "g_zero st3 = zero" using owns_globals[OF o3] by (simp add: zero_def)
  have o4: "owns st st4 {#zero, one, expo, base#}"
    unfolding st4_def bc_init_num_st_def g3
    using owns_copy(1)[OF o3 owns_live0(1)[OF o3 gz(1)]] by (simp add: zero_def)
  (* Check the base for scale digits. *)
  define st5 where "st5 = (if n_scale (cells st4 base) \<noteq> 0
      then rt_warn st4 ''non-zero scale in base'' else st4)"
  have o5: "owns st st5 {#zero, one, expo, base#}" unfolding st5_def using o4 owns_warn(1) by simp
  let ?w = "rt_warn st5 ''non-zero scale in exponent''"
  have o5w: "owns st ?w {#zero, one, expo, base#}" using o5 by (rule owns_warn(1))
  (* Check the exponent for scale digits. *)
  obtain st6 e6 where e6:
    "(if n_scale (cells st5 expo) \<noteq> 0 then
        (case bc_divide_st (rt_warn st5 ''non-zero scale in exponent'') expo (g_one st5) expo 0 of
           (_, st, exponent) \<Rightarrow> (st, exponent))
      else (st5, expo)) = (st6, e6)"
    by (metis surj_pair)
  have s5: "n_scale (cells st5 expo) = n_scale (val st expo)"
    using owns_live0(2)[OF o5 le] by (simp add: val_def)
  have t6: "owns st st6 {#zero, one, e6, base#} \<and> val st6 e6 = ve"
  proof (cases "n_scale (cells st5 expo) \<noteq> 0")
    case False
    then have "st6 = st5" "e6 = expo" using e6 by simp_all
    then show ?thesis using o5 False s5 owns_live0(2)[OF o5 le] by (simp add: ve_def)
  next
    case True
    obtain r s p where d: "bc_divide_st ?w expo (g_one st5) expo 0 = (r, s, p)"
      by (metis prod_cases3)
    have sp: "st6 = s" "e6 = p" using e6 True d by simp_all
    have g5: "g_one st5 = one" using owns_globals[OF o5] by (simp add: one_def)
    have l: "live ?w expo" "live ?w one" "val ?w one = one_num" "val ?w expo = val st expo"
      using owns_live0[OF o5w le] owns_live0[OF o5w go(1)] go(2) by (simp_all add: one_def)
    have n1: "\<not> bc_is_zero (val ?w one)"
      unfolding l(3) by (simp add: one_num_def bc_new_num_def bc_is_zero_def)
    have f: "fresh_result ?w s p (snd (bc_divide (val ?w expo) (val ?w one) (val st expo) 0)) expo"
      using bc_divide_st_spec[OF owns_ok[OF o5w] l(1) l(2) _ n1 d[unfolded g5], of "val st expo"] l(1)
      by simp
    have m: "expo \<in># {#zero, one, expo, base#}" by simp
    have H: "add_mset p ({#zero, one, expo, base#} - {#expo#}) = {#zero, one, p, base#}"
      by (simp add: add_mset_commute)
    note of = owned_fresh[OF o5w m f]
    show ?thesis using of(1) of(4) True s5 l(3,4) unfolding H sp by (simp add: ve_def)
  qed
  then have o6: "owns st st6 {#zero, one, e6, base#}" and v6: "val st6 e6 = ve" by simp_all
  (* Check the modulus for scale digits. *)
  define st7 where "st7 = (if n_scale (cells st6 md) \<noteq> 0
      then rt_warn st6 ''non-zero scale in modulus'' else st6)"
  have o7': "owns st st7 {#zero, one, e6, base#}" unfolding st7_def using o6 owns_warn(1) by simp
  have H7: "{#zero, one, e6, base#} = {#base, e6, one, zero#}" by (simp add: add_mset_commute)
  have o7: "owns st st7 {#base, e6, one, zero#}" using o7' unfolding H7 .
  have v7: "val st7 e6 = ve" "val st7 base = val st base" "val st7 one = one_num" "val st7 zero = zero_num"
    using v6 owns_live0(2)[OF o7' lb] owns_live0(2)[OF o7' go(1)] owns_live0(2)[OF o7' gz(1)] go(2) gz(2)
    by (simp_all add: st7_def one_def zero_def)
  have r7: "MAX_int scale (n_scale (cells st7 base)) = rscale"
    using v7(2) by (simp add: rscale_def val_def)
  (* Do the calculation. *)
  from raisemod_loop_st_spec[OF lm nz gt gz(1) o7 v7(2)[symmetric] v7(1)[symmetric]
      v7(3)[symmetric] v7(4)[symmetric] refl, of scale rscale]
  obtain st8 pwr' e' temp' par' where
    lp: "raisemod_loop_st st7 base e6 one zero md scale rscale = Some (st8, pwr', e', temp', par')"
    and o8: "owns st st8 {#pwr', e', temp', par'#}"
    and v8: "val st8 temp' = raisemod_loop (val st base) ve one_num zero_num (val st md) scale rscale"
    and f8: "if bc_is_zero ve then temp' = one \<and> par' = zero
             else \<not> live st temp' \<and> \<not> live st par'"
    by blast
  (* Assign the value. *)
  define st' where "st' = bc_free_num_st (bc_free_num_st (bc_free_num_st st8 pwr') e') c"
  note fin = raisemod_finish[OF o8 c, folded st'_def]
  have eq: "bc_raisemod_st st base expo md c scale = Some (0, st', temp')"
    unfolding bc_raisemod_st_def Let_def
    by (simp only: nz nn if_False e1 e2 e3 e4 prod.case st5_def[symmetric] e6
        st7_def[symmetric] r7 lp option.case st'_def)
  have pure: "snd (bc_raisemod (val st base) (val st expo) (val st md) w scale)
      = raisemod_loop (val st base) ve one_num zero_num (val st md) scale rscale" for w
    using nz nn by (simp add: bc_raisemod_def Let_def ve_def rscale_def)
  have z: "bc_is_zero ve \<longleftrightarrow>
      mpz_tdiv_q (n_value (cells st expo)) (10 ^ nat (n_scale (cells st expo))) = 0"
    unfolding ve_def using trunc_zero_iff[of "val st expo" "val st expo"] by simp
  have fr: "changed st st' (\<lambda>y. (if y = g_one st then 1 else 0) + (if y = g_zero st then 1 else 0)
                                     + (if y = c then - 1 else 0))"
    if "bc_is_zero ve"
  proof (rule changed_cong[OF fin(1)])
    fix y
    show "int (count {#temp', par'#} y) + (if y = c then - 1 else 0) =
        (if y = g_one st then 1 else 0) + (if y = g_zero st then 1 else 0) + (if y = c then - 1 else 0)"
      using f8 that by (auto simp: one_def zero_def)
  qed
  have nf: "changed st st' (\<lambda>y. if y = c then - 1 else 0)" if "\<not> bc_is_zero ve"
  proof (rule changed_cong[OF fin(1)])
    fix y assume "live st y"
    then have "y \<noteq> temp'" "y \<noteq> par'" using f8 that by auto
    then show "int (count {#temp', par'#} y) + (if y = c then - 1 else 0) = (if y = c then - 1 else 0)"
      by simp
  qed
  show ?thesis
    using eq fin(2) fin(3) v8 pure f8 fr nf unfolding z[symmetric]
    by (auto simp: one_def)
qed

subsection \<open>\<open>bc_raise\<close> on the store\<close>

lemma raise_power_scale: "n_scale (raise_power v e rscale) = rscale"
  by (simp add: raise_power_def bc_new_num_def Let_def)

lemma raise_power_st_install:
  assumes "num1 \<noteq> next_cell st"
  shows "raise_power_st st num1 exponent rscale =
     (case install st (raise_power (val st num1) exponent rscale) 0 of (s, p) \<Rightarrow> (p, s))"
proof -
  obtain st1 where a: "bc_new_num_st st 1 rscale = (next_cell st, st1)"
    and c: "\<And>q. q \<noteq> next_cell st \<Longrightarrow> cells st1 q = cells st q"
    using new_num_ex by blast
  show ?thesis
    unfolding raise_power_st_def install_def Let_def raise_power_scale a
    using assms
    by (simp add: c[OF assms(1)] mpz_set_def raise_power_def val_def bc_new_num_def Let_def
        bc_free_num_st_def)
qed

lemma raise_power_st_spec:
  assumes ok: "alloc_ok st" and l1: "live st num1"
    and e: "raise_power_st st num1 exponent rscale = (temp, st')"
  shows "changed st st' (\<lambda>y. 0)" "\<not> live st temp" "live st' temp"
    "val st' temp = raise_power (val st num1) exponent rscale"
proof -
  have i: "install st (raise_power (val st num1) exponent rscale) 0 = (st', temp)"
    using e raise_power_st_install[OF live_not_next[OF ok l1], of exponent rscale]
    by (simp split: prod.splits)
  note f = fresh_resultD[OF install_spec[OF ok _ i]]
  show "changed st st' (\<lambda>y. 0)"
    by (rule changed_cong[OF f(1)]) (auto dest: live_pos)
  show "\<not> live st temp" "live st' temp" "val st' temp = raise_power (val st num1) exponent rscale"
    using f by simp_all
qed

text \<open>A state that differs in its messages only.\<close>

lemma messages_update_simps [simp]:
  "alloc_ok (st\<lparr>messages := m\<rparr>) = alloc_ok st"
  "live (st\<lparr>messages := m\<rparr>) = live st"
  "val (st\<lparr>messages := m\<rparr>) = val st"
  by (simp_all add: alloc_ok_def live_def val_def fun_eq_iff)

lemma changed_messages [simp]:
  "changed (st\<lparr>messages := m\<rparr>) st' d = changed st st' d"
  by (simp add: changed_def same_globals_def)

lemma bc_raise_st_zero:
  assumes ok: "alloc_ok st" and go: "live st (g_one st)"
    and c: "c = 0 \<or> live st c" and c1: "c = g_one st \<longrightarrow> 2 \<le> n_refs (cells st c)"
    and e: "bc_num2long (val st num2) = 0"
  shows "\<exists>st'. bc_raise_st st num1 num2 c scale = (st', g_one st)
      \<and> live st' (g_one st) \<and> val st' (g_one st) = val st (g_one st)
      \<and> changed st st' (\<lambda>y. (if y = g_one st then 1 else 0) + (if y = c then - 1 else 0))"
proof -
  obtain m where r: "raise_exponent_st st num2 = (st\<lparr>messages := m\<rparr>, 0)"
    unfolding raise_exponent_st_eq e by blast
  let ?s2 = "st\<lparr>messages := m\<rparr>"
  define st3 where "st3 = bc_free_num_st ?s2 c"
  define st4 where "st4 = snd (bc_copy_num_st st3 (g_one st3))"
  have f: "changed st st3 (\<lambda>y. if y = c then - 1 else 0)"
    using free_changed[of ?s2 c] ok c by (simp add: st3_def)
  have g3: "g_one st3 = g_one st" using changed_globals[OF f] by (simp add: same_globals_def)
  have e4: "bc_copy_num_st st3 (g_one st3) = (g_one st, st4)"
    by (simp add: st4_def prod_eq_iff g3)
  have cp: "changed st3 st4 (\<lambda>y. if y = g_one st then 1 else 0)"
    using copy_changed(1)[OF changed_ok[OF f], of "g_one st3"] by (simp add: st4_def g3)
  have ch: "changed st st4 (\<lambda>y. (if y = c then - 1 else 0) + (if y = g_one st then 1 else 0))"
  proof (rule changed_trans_gen[OF f cp])
    fix y
    assume y: "live st y"
      "0 < n_refs (cells st y) + ((if y = c then - 1 else 0) + (if y = g_one st then 1 else 0))"
    show "0 < n_refs (cells st y) + (if y = c then - 1 else 0)"
      using y c1 by (auto simp: live_def split: if_splits)
  qed
  have ch': "changed st st4 (\<lambda>y. (if y = g_one st then 1 else 0) + (if y = c then - 1 else 0))"
    by (rule changed_cong[OF ch]) simp
  have pos: "0 < n_refs (cells st (g_one st))
      + ((if g_one st = g_one st then 1 else 0) + (if g_one st = c then - 1 else 0))"
    using go c1 by (auto simp: live_def)
  have eq: "bc_raise_st st num1 num2 c scale = (st4, g_one st)"
    unfolding bc_raise_st_def Let_def
    by (simp only: r prod.case if_True st3_def[symmetric] e4 refl)
  show ?thesis using eq ch' changed_live(1,2)[OF ch' go pos] by blast
qed

lemma bc_raise_st_pos:
  assumes ok: "alloc_ok st" and l1: "live st num1"
    and c: "c = 0 \<or> live st c"
    and e: "0 < bc_num2long (val st num2)"
  shows "\<exists>st' p. bc_raise_st st num1 num2 c scale = (st', p)
      \<and> \<not> live st p \<and> live st' p
      \<and> val st' p = bc_raise (val st num1) (val st num2) w scale
      \<and> changed st st' (\<lambda>y. if y = c then - 1 else 0)"
proof -
  define ex where "ex = bc_num2long (val st num2)"
  obtain m where r: "raise_exponent_st st num2 = (st\<lparr>messages := m\<rparr>, ex)"
    unfolding raise_exponent_st_eq ex_def by blast
  let ?s2 = "st\<lparr>messages := m\<rparr>"
  define rscale where "rscale = long_to_int
    (MIN_int (n_scale (cells ?s2 num1) * ex) (MAX_int scale (n_scale (cells ?s2 num1))))"
  have ex0: "ex \<noteq> 0" "\<not> ex < 0" using e by (simp_all add: ex_def)
  obtain temp st3 where p: "raise_power_st ?s2 num1 ex rscale = (temp, st3)" by (metis surj_pair)
  have p': "raise_power_st ?s2 num1 (if ex < 0 then - ex else ex)
      (if ex < 0 then scale
       else long_to_int (MIN_int (n_scale (cells ?s2 num1) * ex) (MAX_int scale (n_scale (cells ?s2 num1)))))
      = (temp, st3)"
    using p ex0 by (simp add: rscale_def)
  have sp: "changed st st3 (\<lambda>y. 0)" "\<not> live st temp" "live st3 temp"
    "val st3 temp = raise_power (val st num1) ex rscale"
    using raise_power_st_spec[OF _ _ p] ok l1 by simp_all
  define st4 where "st4 = bc_free_num_st st3 c"
  have c3: "c = 0 \<or> live st3 c" using c changed_keep(1)[OF sp(1)] by auto
  have f: "changed st3 st4 (\<lambda>y. if y = c then - 1 else 0)"
    unfolding st4_def by (rule free_changed[OF changed_ok[OF sp(1)] c3])
  have ch: "changed st st4 (\<lambda>y. if y = c then - 1 else 0)"
    by (rule changed_cong[OF changed_trans[OF sp(1) f]]) simp_all
  have tc: "temp \<noteq> c" using c sp(2,3) by (auto dest: live_pos)
  have t4: "live st4 temp" "val st4 temp = val st3 temp"
    using changed_keep[OF f sp(3)] tc by simp_all
  have eq: "bc_raise_st st num1 num2 c scale = (st4, temp)"
    unfolding bc_raise_st_def Let_def
    by (simp only: r prod.case ex0 if_False rscale_def[symmetric] p st4_def[symmetric])
  have pure: "bc_raise (val st num1) (val st num2) w scale = raise_power (val st num1) ex rscale"
    using ex0 by (simp add: bc_raise_def Let_def ex_def[symmetric] rscale_def)
  show ?thesis using eq sp(2) t4 sp(4) pure ch by simp
qed

lemma bc_raise_st_neg:
  assumes ok: "alloc_ok st" and l1: "live st num1"
    and go: "live st (g_one st)" "val st (g_one st) = one_num"
    and c: "c = 0 \<or> live st c"
    and e: "bc_num2long (val st num2) < 0"
  shows "\<exists>st' p. bc_raise_st st num1 num2 c scale = (st', p)
      \<and> (if bc_is_zero (raise_power (val st num1) (- bc_num2long (val st num2)) scale)
          then p = c \<and> changed st st' (\<lambda>y. 0)
          else \<not> live st p \<and> live st' p
             \<and> val st' p = bc_raise (val st num1) (val st num2) w scale
             \<and> changed st st' (\<lambda>y. if y = c then - 1 else 0))"
proof -
  define ex where "ex = bc_num2long (val st num2)"
  obtain m where r: "raise_exponent_st st num2 = (st\<lparr>messages := m\<rparr>, ex)"
    unfolding raise_exponent_st_eq ex_def by blast
  let ?s2 = "st\<lparr>messages := m\<rparr>"
  have ex0: "ex \<noteq> 0" "ex < 0" using e by (simp_all add: ex_def)
  obtain temp st3 where p: "raise_power_st ?s2 num1 (- ex) scale = (temp, st3)" by (metis surj_pair)
  have p': "raise_power_st ?s2 num1 (if ex < 0 then - ex else ex)
      (if ex < 0 then scale
       else long_to_int (MIN_int (n_scale (cells ?s2 num1) * ex) (MAX_int scale (n_scale (cells ?s2 num1)))))
      = (temp, st3)"
    using p ex0 by simp
  have sp: "changed st st3 (\<lambda>y. 0)" "\<not> live st temp" "live st3 temp"
    "val st3 temp = raise_power (val st num1) (- ex) scale"
    using raise_power_st_spec[OF _ _ p] ok l1 by simp_all
  have g3: "g_one st3 = g_one st" using changed_globals[OF sp(1)] by (simp add: same_globals_def)
  have o3: "live st3 (g_one st)" "val st3 (g_one st) = one_num"
    using changed_keep[OF sp(1) go(1)] go(2) by simp_all
  have c3: "c = 0 \<or> live st3 c" using c changed_keep(1)[OF sp(1)] by auto
  obtain rr st4 q where d: "bc_divide_st st3 (g_one st3) temp c scale = (rr, st4, q)"
    by (metis prod_cases3)
  have eq: "bc_raise_st st num1 num2 c scale = (st4, q)"
    unfolding bc_raise_st_def Let_def
    by (simp only: r prod.case ex0 if_False if_True p d)
  have pure: "bc_raise (val st num1) (val st num2) w scale
      = snd (bc_divide one_num (raise_power (val st num1) (- ex) scale) w scale)"
    using ex0 by (simp add: bc_raise_def Let_def ex_def[symmetric])
  show ?thesis
  proof (cases "bc_is_zero (raise_power (val st num1) (- ex) scale)")
    case True
    then have "bc_divide_st st3 (g_one st3) temp c scale = (- 1, st3, c)"
      using sp(4) by (simp add: bc_divide_st_def)
    then have "st4 = st3" "q = c" using d by simp_all
    then show ?thesis using eq sp(1) True by (simp add: ex_def)
  next
    case False
    then have nz: "\<not> bc_is_zero (val st3 temp)" using sp(4) by simp
    have f: "fresh_result st3 st4 q (snd (bc_divide (val st3 (g_one st)) (val st3 temp) w scale)) c"
      using bc_divide_st_spec[OF changed_ok[OF sp(1)] o3(1) sp(3) c3 nz d[unfolded g3], of w] by simp
    note fd = fresh_resultD[OF f]
    have ch: "changed st st4 (\<lambda>y. if y = c then - 1 else 0)"
      by (rule changed_cong[OF changed_trans[OF sp(1) fd(1)]]) simp_all
    have nl: "\<not> live st q" using fd(2) changed_keep(1)[OF sp(1)] by auto
    have v: "val st4 q = bc_raise (val st num1) (val st num2) w scale"
      using fd(4) o3(2) sp(4) pure by simp
    show ?thesis using eq nl fd(3) v ch False by (simp add: ex_def)
  qed
qed

subsection \<open>Result slots\<close>

lemma fresh_result_writes: "fresh_result st st' p v c \<Longrightarrow> writes_fresh st c st' p v"
  by (simp add: fresh_result_def writes_fresh_def)

lemma bc_divmod_slots:
  "\<not> bc_is_zero v2 \<Longrightarrow>
     bc_divmod v1 v2 (Some w1) w2 scale = bc_divmod v1 v2 (Some w3) w4 scale"
  by (simp add: bc_divmod_def Let_def)

lemma bc_modulo_slot:
  "\<not> bc_is_zero v2 \<Longrightarrow> snd (bc_modulo v1 v2 w scale) = snd (bc_modulo v1 v2 w' scale)"
  by (simp add: bc_modulo_def bc_divmod_def Let_def)

lemma add_part:
  assumes "alloc_ok st" "live st n1" "live st n2" "c = 0 \<or> live st c"
  shows "writes_fresh st c (fst (bc_add_st st n1 n2 c scale)) (snd (bc_add_st st n1 n2 c scale))
           (bc_add (val st n1) (val st n2) scale)"
  by (rule fresh_result_writes, rule bc_add_st_spec[OF assms]) simp

lemma sub_part:
  assumes "alloc_ok st" "live st n1" "live st n2" "c = 0 \<or> live st c"
  shows "writes_fresh st c (fst (bc_sub_st st n1 n2 c scale)) (snd (bc_sub_st st n1 n2 c scale))
           (bc_sub (val st n1) (val st n2) scale)"
  by (rule fresh_result_writes, rule bc_sub_st_spec[OF assms]) simp

lemma multiply_part:
  assumes "alloc_ok st" "live st n1" "live st n2" "c = 0 \<or> live st c"
  shows "writes_fresh st c (fst (bc_multiply_st st n1 n2 c scale)) (snd (bc_multiply_st st n1 n2 c scale))
           (bc_multiply (val st n1) (val st n2) scale)"
  by (rule fresh_result_writes, rule bc_multiply_st_spec[OF assms]) simp

lemma divide_part:
  assumes "alloc_ok st" "live st n1" "live st n2" "c = 0 \<or> live st c" "\<not> bc_is_zero (val st n2)"
  shows "\<exists>st' p. bc_divide_st st n1 n2 c scale = (0, st', p)
      \<and> (\<forall>w. writes_fresh st c st' p (snd (bc_divide (val st n1) (val st n2) w scale)))"
proof -
  obtain r st' p where e: "bc_divide_st st n1 n2 c scale = (r, st', p)" by (metis prod_cases3)
  have "r = 0 \<and> writes_fresh st c st' p (snd (bc_divide (val st n1) (val st n2) w scale))" for w
    using bc_divide_st_spec[OF assms e, of w] fresh_result_writes by blast
  then show ?thesis using e by blast
qed

lemma modulo_part:
  assumes "alloc_ok st" "live st n1" "live st n2" "live st (g_zero st)" "c = 0 \<or> live st c"
    "\<not> bc_is_zero (val st n2)"
  shows "\<exists>st' p. bc_modulo_st st n1 n2 c scale = (0, st', p)
      \<and> (\<forall>w. writes_fresh st c st' p (snd (bc_modulo (val st n1) (val st n2) w scale)))"
proof -
  from bc_modulo_st_spec[OF assms, of scale]
  obtain st' p where e: "bc_modulo_st st n1 n2 c scale = (0, st', p)"
    and f: "fresh_result st st' p (snd (bc_modulo (val st n1) (val st n2) (val st c) scale)) c"
    by blast
  have "writes_fresh st c st' p (snd (bc_modulo (val st n1) (val st n2) w scale))" for w
    using fresh_result_writes[OF f] bc_modulo_slot[OF assms(6), of "val st n1" w scale "val st c"]
    by simp
  then show ?thesis using e by blast
qed

lemma divmod_part:
  assumes ok: "alloc_ok st" and l: "live st n1" "live st n2" "live st (g_zero st)"
    and c: "c = 0 \<or> live st c" and nz: "\<not> bc_is_zero (val st n2)"
    and q: "qc = 0 \<or> live st qc" "qc = c \<and> c \<noteq> 0 \<longrightarrow> 2 \<le> n_refs (cells st c)"
  shows "\<exists>st' q p. bc_divmod_st st n1 n2 (Some qc) c scale = (0, st', Some q, p)
      \<and> q \<noteq> p \<and> \<not> live st q \<and> \<not> live st p \<and> live st' q \<and> live st' p
      \<and> (\<forall>w1 w2. bc_divmod (val st n1) (val st n2) (Some w1) w2 scale = (0, Some (val st' q), val st' p))
      \<and> changed st st' (\<lambda>y. (if y = c then - 1 else 0) + (if y = qc then - 1 else 0))"
proof -
  have qq: "(ca = 0 \<or> live st ca) \<and> (ca = c \<and> ca \<noteq> 0 \<longrightarrow> 2 \<le> n_refs (cells st ca))"
    if "Some qc = Some ca" for ca
    using that q by auto
  have spec: "\<exists>st' q r.
      bc_divmod_st st n1 n2 (Some qc) c scale = (0, st', Some q, r)
    \<and> changed st st' (\<lambda>y. (if y = c then - 1 else 0) + (if Some qc = Some y then - 1 else 0))
    \<and> \<not> live st r \<and> live st' r \<and> n_refs (cells st' r) = 1
    \<and> val st' r = snd (snd (bc_divmod (val st n1) (val st n2) (Some (val st qc)) (val st c) scale))
    \<and> \<not> live st q \<and> live st' q \<and> n_refs (cells st' q) = 1 \<and> q \<noteq> r
    \<and> Some (val st' q) = fst (snd (bc_divmod (val st n1) (val st n2) (Some (val st qc)) (val st c) scale))"
    using bc_divmod_st_spec[where quot = "Some qc" and rc = c and scale = scale, OF ok l(1) l(2) l(3) c qq nz]
    by (simp only: option.map option.distinct not_False_eq_True simp_thms)
  then obtain st' q r where
    e: "bc_divmod_st st n1 n2 (Some qc) c scale = (0, st', Some q, r)"
    and ch: "changed st st' (\<lambda>y. (if y = c then - 1 else 0) + (if Some qc = Some y then - 1 else 0))"
    and r: "\<not> live st r" "live st' r"
      "val st' r = snd (snd (bc_divmod (val st n1) (val st n2) (Some (val st qc)) (val st c) scale))"
    and qf: "\<not> live st q" "live st' q" "q \<noteq> r"
      "Some (val st' q) = fst (snd (bc_divmod (val st n1) (val st n2) (Some (val st qc)) (val st c) scale))"
    by blast
  have ch': "changed st st' (\<lambda>y. (if y = c then - 1 else 0) + (if y = qc then - 1 else 0))"
    by (rule changed_cong[OF ch]) auto
  have f0: "fst (bc_divmod (val st n1) (val st n2) (Some (val st qc)) (val st c) scale) = 0"
    using nz by (simp add: bc_divmod_def Let_def)
  have pv: "bc_divmod (val st n1) (val st n2) (Some w1) w2 scale = (0, Some (val st' q), val st' r)"
    for w1 w2
    unfolding bc_divmod_slots[OF nz, of "val st n1" w1 w2 scale "val st qc" "val st c"]
    using f0 qf(4) r(3) by (metis prod.collapse)
  show ?thesis using e qf r ch' pv by blast
qed

lemma raise_part:
  assumes s: "state_ok st" and l: "live st n1" "live st n2" and c: "c = 0 \<or> live st c"
    and c1: "c = g_one st \<longrightarrow> 2 \<le> n_refs (cells st c)"
  shows "\<exists>st' p. bc_raise_st st n1 n2 c scale = (st', p)
      \<and> (if bc_num2long (val st n2) = 0
          then p = g_one st \<and> live st' p \<and> val st' p = one_num
             \<and> changed st st' (\<lambda>y. (if y = g_one st then 1 else 0) + (if y = c then - 1 else 0))
          else if bc_num2long (val st n2) < 0
                  \<and> bc_is_zero (raise_power (val st n1) (- bc_num2long (val st n2)) scale)
          then p = c \<and> changed st st' (\<lambda>y. 0)
          else (\<forall>w. writes_fresh st c st' p (bc_raise (val st n1) (val st n2) w scale)))"
proof -
  have ok: "alloc_ok st" and go: "live st (g_one st)" "val st (g_one st) = one_num"
    using s by (simp_all add: state_ok_def)
  obtain st' p where e: "bc_raise_st st n1 n2 c scale = (st', p)" by (metis surj_pair)
  consider (z) "bc_num2long (val st n2) = 0" | (pos) "0 < bc_num2long (val st n2)"
    | (neg) "bc_num2long (val st n2) < 0" by linarith
  then show ?thesis
  proof cases
    case z
    show ?thesis using bc_raise_st_zero[OF ok go(1) c c1 z, of n1 scale] e z go(2) by auto
  next
    case pos
    have "writes_fresh st c st' p (bc_raise (val st n1) (val st n2) w scale)" for w
      using bc_raise_st_pos[OF ok l(1) c pos, of scale w] e by (auto simp: writes_fresh_def)
    then show ?thesis using e pos by auto
  next
    case neg
    show ?thesis
    proof (cases "bc_is_zero (raise_power (val st n1) (- bc_num2long (val st n2)) scale)")
      case True
      show ?thesis using bc_raise_st_neg[OF ok l(1) go c neg, of scale] e neg True by auto
    next
      case False
      have "writes_fresh st c st' p (bc_raise (val st n1) (val st n2) w scale)" for w
        using bc_raise_st_neg[OF ok l(1) go c neg, of scale w] e False
        by (auto simp: writes_fresh_def)
      then show ?thesis using e neg False by auto
    qed
  qed
qed

lemma raisemod_part:
  assumes s: "state_ok st" and l: "live st n1" "live st n2" and c: "c = 0 \<or> live st c"
    and m: "live st md" "\<not> bc_is_zero (val st md)" "\<not> bc_is_neg (val st n2)"
  shows "\<exists>st' p. bc_raisemod_st st n1 n2 md c scale = Some (0, st', p)
      \<and> live st' p
      \<and> (\<forall>w. val st' p = snd (bc_raisemod (val st n1) (val st n2) (val st md) w scale))
      \<and> (if mpz_tdiv_q (n_value (cells st n2)) (10 ^ nat (n_scale (cells st n2))) = 0
          then p = g_one st
             \<and> changed st st' (\<lambda>y. (if y = g_one st then 1 else 0) + (if y = g_zero st then 1 else 0)
                                     + (if y = c then - 1 else 0))
          else \<not> live st p \<and> changed st st' (\<lambda>y. if y = c then - 1 else 0))"
  using s bc_raisemod_st_spec[OF _ l m(1) _ _ _ _ _ _ c m(2,3), of scale]
  by (simp add: state_ok_def)

text \<open>
  Claim C10, amended.  In a state of the library, with live operands and a result slot
  that is empty or holds a live cell \<open>c\<close> (an operand or not):
  \<^item> \<open>bc_add\<close>, \<open>bc_sub\<close>, \<open>bc_multiply\<close>, and with a nonzero divisor \<open>bc_divide\<close>,
    \<open>bc_modulo\<close> and \<open>bc_divmod\<close> (both slots) write fresh storage: the slot receives
    a cell that was not live before the call, holding the number that the value layer
    computes from the operands' numbers alone, and of the cells live before the call
    only the slot's occupant has changed, by the reference the slot gave up.
  \<^item> \<open>bc_raisemod\<close> (nonzero modulus, exponent not negative) returns, and the slot
    receives a live cell with the number of the value layer; that cell is fresh and the
    frame is as above, unless the integer part of the exponent is 0: then the slot
    receives a share of \<open>_one_\<close> (and \<open>_zero_\<close> keeps the reference of \<open>parity\<close>).
  \<^item> \<open>bc_raise\<close>: when \<open>bc_num2long\<close> of the exponent is 0 the slot receives a share of
    \<open>_one_\<close>; otherwise, for a positive exponent, and for a negative exponent whose
    final \<open>bc_divide\<close> succeeds (the power at \<open>scale\<close> digits is not zero), the slot
    receives fresh storage as above.
  In each of these cases the number the slot receives does not depend on what the slot
  held, so a call whose slot holds one of the operands installs what any other call with
  these operands installs, and every other live cell keeps its number.
\<close>

theorem result_slots_fresh:
  assumes s: "state_ok st" and l: "live st n1" "live st n2" and c: "c = 0 \<or> live st c"
  shows
   "writes_fresh st c (fst (bc_add_st st n1 n2 c scale)) (snd (bc_add_st st n1 n2 c scale))
      (bc_add (val st n1) (val st n2) scale)
  \<and> writes_fresh st c (fst (bc_sub_st st n1 n2 c scale)) (snd (bc_sub_st st n1 n2 c scale))
      (bc_sub (val st n1) (val st n2) scale)
  \<and> writes_fresh st c (fst (bc_multiply_st st n1 n2 c scale)) (snd (bc_multiply_st st n1 n2 c scale))
      (bc_multiply (val st n1) (val st n2) scale)
  \<and> (\<not> bc_is_zero (val st n2) \<longrightarrow>
       (\<exists>st' p. bc_divide_st st n1 n2 c scale = (0, st', p)
          \<and> (\<forall>w. writes_fresh st c st' p (snd (bc_divide (val st n1) (val st n2) w scale))))
     \<and> (\<exists>st' p. bc_modulo_st st n1 n2 c scale = (0, st', p)
          \<and> (\<forall>w. writes_fresh st c st' p (snd (bc_modulo (val st n1) (val st n2) w scale))))
     \<and> (\<forall>qc. (qc = 0 \<or> live st qc) \<and> (qc = c \<and> c \<noteq> 0 \<longrightarrow> 2 \<le> n_refs (cells st c)) \<longrightarrow>
          (\<exists>st' q p. bc_divmod_st st n1 n2 (Some qc) c scale = (0, st', Some q, p)
             \<and> q \<noteq> p \<and> \<not> live st q \<and> \<not> live st p \<and> live st' q \<and> live st' p
             \<and> (\<forall>w1 w2. bc_divmod (val st n1) (val st n2) (Some w1) w2 scale
                           = (0, Some (val st' q), val st' p))
             \<and> changed st st' (\<lambda>y. (if y = c then - 1 else 0) + (if y = qc then - 1 else 0)))))
  \<and> (\<forall>md. live st md \<and> \<not> bc_is_zero (val st md) \<and> \<not> bc_is_neg (val st n2) \<longrightarrow>
       (\<exists>st' p. bc_raisemod_st st n1 n2 md c scale = Some (0, st', p)
          \<and> live st' p
          \<and> (\<forall>w. val st' p = snd (bc_raisemod (val st n1) (val st n2) (val st md) w scale))
          \<and> (if mpz_tdiv_q (n_value (cells st n2)) (10 ^ nat (n_scale (cells st n2))) = 0
              then p = g_one st
                 \<and> changed st st' (\<lambda>y. (if y = g_one st then 1 else 0)
                                         + (if y = g_zero st then 1 else 0)
                                         + (if y = c then - 1 else 0))
              else \<not> live st p \<and> changed st st' (\<lambda>y. if y = c then - 1 else 0))))
  \<and> ((c = g_one st \<longrightarrow> 2 \<le> n_refs (cells st c)) \<longrightarrow>
       (\<exists>st' p. bc_raise_st st n1 n2 c scale = (st', p)
          \<and> (if bc_num2long (val st n2) = 0
              then p = g_one st \<and> live st' p \<and> val st' p = one_num
                 \<and> changed st st' (\<lambda>y. (if y = g_one st then 1 else 0) + (if y = c then - 1 else 0))
              else (0 < bc_num2long (val st n2)
                      \<or> \<not> bc_is_zero (raise_power (val st n1) (- bc_num2long (val st n2)) scale))
                   \<longrightarrow> (\<forall>w. writes_fresh st c st' p (bc_raise (val st n1) (val st n2) w scale)))))"
proof -
  have ok: "alloc_ok st" and gz: "live st (g_zero st)" using s by (simp_all add: state_ok_def)
  note a = add_part[OF ok l c, of scale]
  note b = sub_part[OF ok l c, of scale]
  note m = multiply_part[OF ok l c, of scale]
  have d: "\<not> bc_is_zero (val st n2) \<longrightarrow>
       (\<exists>st' p. bc_divide_st st n1 n2 c scale = (0, st', p)
          \<and> (\<forall>w. writes_fresh st c st' p (snd (bc_divide (val st n1) (val st n2) w scale))))
     \<and> (\<exists>st' p. bc_modulo_st st n1 n2 c scale = (0, st', p)
          \<and> (\<forall>w. writes_fresh st c st' p (snd (bc_modulo (val st n1) (val st n2) w scale))))
     \<and> (\<forall>qc. (qc = 0 \<or> live st qc) \<and> (qc = c \<and> c \<noteq> 0 \<longrightarrow> 2 \<le> n_refs (cells st c)) \<longrightarrow>
          (\<exists>st' q p. bc_divmod_st st n1 n2 (Some qc) c scale = (0, st', Some q, p)
             \<and> q \<noteq> p \<and> \<not> live st q \<and> \<not> live st p \<and> live st' q \<and> live st' p
             \<and> (\<forall>w1 w2. bc_divmod (val st n1) (val st n2) (Some w1) w2 scale
                           = (0, Some (val st' q), val st' p))
             \<and> changed st st' (\<lambda>y. (if y = c then - 1 else 0) + (if y = qc then - 1 else 0))))"
    using divide_part[OF ok l c, of scale] modulo_part[OF ok l gz c, of scale]
      divmod_part[OF ok l gz c, of _ scale]
    by (intro impI conjI allI) blast+
  have rm: "\<forall>md. live st md \<and> \<not> bc_is_zero (val st md) \<and> \<not> bc_is_neg (val st n2) \<longrightarrow>
       (\<exists>st' p. bc_raisemod_st st n1 n2 md c scale = Some (0, st', p)
          \<and> live st' p
          \<and> (\<forall>w. val st' p = snd (bc_raisemod (val st n1) (val st n2) (val st md) w scale))
          \<and> (if mpz_tdiv_q (n_value (cells st n2)) (10 ^ nat (n_scale (cells st n2))) = 0
              then p = g_one st
                 \<and> changed st st' (\<lambda>y. (if y = g_one st then 1 else 0)
                                         + (if y = g_zero st then 1 else 0)
                                         + (if y = c then - 1 else 0))
              else \<not> live st p \<and> changed st st' (\<lambda>y. if y = c then - 1 else 0)))"
    using raisemod_part[OF s l c, of _ scale] by (intro allI impI) blast
  have r: "(c = g_one st \<longrightarrow> 2 \<le> n_refs (cells st c)) \<longrightarrow>
       (\<exists>st' p. bc_raise_st st n1 n2 c scale = (st', p)
          \<and> (if bc_num2long (val st n2) = 0
              then p = g_one st \<and> live st' p \<and> val st' p = one_num
                 \<and> changed st st' (\<lambda>y. (if y = g_one st then 1 else 0) + (if y = c then - 1 else 0))
              else (0 < bc_num2long (val st n2)
                      \<or> \<not> bc_is_zero (raise_power (val st n1) (- bc_num2long (val st n2)) scale))
                   \<longrightarrow> (\<forall>w. writes_fresh st c st' p (bc_raise (val st n1) (val st n2) w scale))))"
  proof
    assume c1: "c = g_one st \<longrightarrow> 2 \<le> n_refs (cells st c)"
    from raise_part[OF s l c c1, of scale]
    obtain st' p where e: "bc_raise_st st n1 n2 c scale = (st', p)"
      and b: "if bc_num2long (val st n2) = 0
          then p = g_one st \<and> live st' p \<and> val st' p = one_num
             \<and> changed st st' (\<lambda>y. (if y = g_one st then 1 else 0) + (if y = c then - 1 else 0))
          else if bc_num2long (val st n2) < 0
                  \<and> bc_is_zero (raise_power (val st n1) (- bc_num2long (val st n2)) scale)
          then p = c \<and> changed st st' (\<lambda>y. 0)
          else (\<forall>w. writes_fresh st c st' p (bc_raise (val st n1) (val st n2) w scale))"
      by blast
    have "if bc_num2long (val st n2) = 0
          then p = g_one st \<and> live st' p \<and> val st' p = one_num
             \<and> changed st st' (\<lambda>y. (if y = g_one st then 1 else 0) + (if y = c then - 1 else 0))
          else (0 < bc_num2long (val st n2)
                  \<or> \<not> bc_is_zero (raise_power (val st n1) (- bc_num2long (val st n2)) scale))
               \<longrightarrow> (\<forall>w. writes_fresh st c st' p (bc_raise (val st n1) (val st n2) w scale))"
      using b by (auto split: if_splits)
    then show "\<exists>st' p. bc_raise_st st n1 n2 c scale = (st', p)
          \<and> (if bc_num2long (val st n2) = 0
              then p = g_one st \<and> live st' p \<and> val st' p = one_num
                 \<and> changed st st' (\<lambda>y. (if y = g_one st then 1 else 0) + (if y = c then - 1 else 0))
              else (0 < bc_num2long (val st n2)
                      \<or> \<not> bc_is_zero (raise_power (val st n1) (- bc_num2long (val st n2)) scale))
                   \<longrightarrow> (\<forall>w. writes_fresh st c st' p (bc_raise (val st n1) (val st n2) w scale)))"
      using e by blast
  qed
  show ?thesis using a b m d rm r by (intro conjI)
qed

lemma writes_fresh_keep:
  assumes "writes_fresh st c st' p v" "live st y" "y \<noteq> c"
  shows "live st' y \<and> val st' y = val st y"
  using assms changed_keep[of st st' "\<lambda>y. if y = c then - 1 else 0" y]
  by (simp add: writes_fresh_def)

lemma bc_divmod_two_int:
  assumes "0 \<le> n"
  shows "bc_divmod \<lparr>n_scale = 0, n_value = n\<rparr> two_num (Some e) par 0 =
     (0, Some \<lparr>n_scale = 0, n_value = n div 2\<rparr>, \<lparr>n_scale = 0, n_value = n mod 2\<rparr>)"
proof -
  have "n - n div 2 * 2 = n mod 2" by (simp add: minus_div_mult_eq_mod)
  then show ?thesis
    using assms
    by (simp add: bc_divmod_def two_num_def bc_divide_int bc_is_zero_def bc_multiply_def
        bc_sub_def bc_new_num_def MAX_int_def MIN_int_def Let_def)
qed

lemma raisemod_loop_int_step:
  assumes "0 < n" "0 \<le> p" "0 \<le> t" "0 < m"
  shows "raisemod_loop \<lparr>n_scale = 0, n_value = p\<rparr> \<lparr>n_scale = 0, n_value = n\<rparr>
           \<lparr>n_scale = 0, n_value = t\<rparr> par \<lparr>n_scale = 0, n_value = m\<rparr> 0 0 =
         raisemod_loop \<lparr>n_scale = 0, n_value = p * p mod m\<rparr> \<lparr>n_scale = 0, n_value = n div 2\<rparr>
           \<lparr>n_scale = 0, n_value = (if n mod 2 \<noteq> 0 then t * p mod m else t)\<rparr>
           \<lparr>n_scale = 0, n_value = n mod 2\<rparr> \<lparr>n_scale = 0, n_value = m\<rparr> 0 0"
  using assms
  by (subst raisemod_loop.simps)
    (simp add: bc_divmod_two_int bc_multiply_int bc_modulo_int bc_is_zero_def sgn_eq_0_iff)

lemma raisemod_loop_int_stop:
  "raisemod_loop p \<lparr>n_scale = 0, n_value = 0\<rparr> t par m scale rscale = t"
  by (subst raisemod_loop.simps) (simp add: bc_is_zero_def)

lemmas demo_eval = demo_state_eq state_ok_def alloc_ok_def live_def val_def zero_num_def one_num_def
  two_num_def bc_new_num_def bc_is_zero_def bc_is_neg_def

text \<open>
  The conversion of \<open>diffscale\<close> to \<open>int\<close> at work: for 0.1 to the \<open>4294967296\<close> at scale
  0, \<open>rscale\<close> is 1 and \<open>diffscale\<close> is \<open>4294967295\<close> as a \<open>long\<close> and \<open>- 1\<close> as an
  \<open>int\<close>, so the power 1 is multiplied by 10; for the exponent \<open>- 4294967296\<close>,
  \<open>diffscale\<close> is 0 as an \<open>int\<close>, the power stays 1 and the quotient is 1.
\<close>

lemma wide_state_eq:
  "wide_state =
    \<lparr>cells = (\<lambda>_. \<lparr>n_scale = 0, n_value = 0, n_refs = 0\<rparr>)
        (1 := \<lparr>n_scale = 0, n_value = 0, n_refs = 1\<rparr>,
         2 := \<lparr>n_scale = 0, n_value = 1, n_refs = 1\<rparr>,
         3 := \<lparr>n_scale = 0, n_value = 2, n_refs = 1\<rparr>,
         4 := \<lparr>n_scale = 1, n_value = 1, n_refs = 1\<rparr>,
         5 := \<lparr>n_scale = 0, n_value = 4294967296, n_refs = 1\<rparr>,
         6 := \<lparr>n_scale = 0, n_value = - 4294967296, n_refs = 1\<rparr>),
      bc_Free_list = [], heap_top = 7, g_zero = 1, g_one = 2, g_two = 3, messages = []\<rparr>"
  unfolding wide_state_def bc_init_numbers_st_def empty_state_def bc_new_num_st_def mpz_set_def Let_def
  by (simp add: eval_nat_numeral)

lemmas wide_eval = wide_state_eq state_ok_def alloc_ok_def live_def val_def zero_num_def one_num_def
  two_num_def bc_new_num_def bc_is_zero_def bc_is_neg_def

lemma bc_raise_wide_pos:
  "bc_raise \<lparr>n_scale = 1, n_value = 1\<rparr> \<lparr>n_scale = 0, n_value = 4294967296\<rparr> w 0
     = \<lparr>n_scale = 1, n_value = 10\<rparr>"
  unfolding bc_raise_def Let_def
  by (simp add: bc_num2long_small LONG_MAX_def raise_power_def MAX_int_def MIN_int_def
      bc_new_num_def long_to_int_def)

lemma raise_power_wide_neg:
  "raise_power \<lparr>n_scale = 1, n_value = 1\<rparr> 4294967296 0 = \<lparr>n_scale = 0, n_value = 1\<rparr>"
  unfolding raise_power_def Let_def by (simp add: bc_new_num_def long_to_int_def)

lemma bc_num2long_wide_neg: "bc_num2long \<lparr>n_scale = 0, n_value = - 4294967296\<rparr> = - 4294967296"
  by (simp add: bc_num2long_def mpz_fits_slong_p_def LONG_MAX_def)

lemma bc_raise_wide_neg:
  "bc_raise \<lparr>n_scale = 1, n_value = 1\<rparr> \<lparr>n_scale = 0, n_value = - 4294967296\<rparr> w 0
     = \<lparr>n_scale = 0, n_value = 1\<rparr>"
  unfolding bc_raise_def Let_def bc_num2long_wide_neg
  by (simp add: raise_power_wide_neg bc_divide_def bc_is_zero_def one_num_def bc_new_num_def)

text \<open>
  In the example state, with the slot holding the first operand 7 and the second operand
  5: the sum 12 (and 5 is still 5), the product 35, the quotient 1, \<open>7 ^ 5 mod 13 = 11\<close>
  and \<open>7 ^ 5 = 16807\<close>; and \<open>bc_divmod\<close> with the quotient slot holding the 5 and the
  remainder slot holding the 7: quotient 1, remainder 2.  In the second state, with the
  slot holding the base 0.1: 0.1 to the \<open>4294967296\<close> installs 1.0 (scale 1), and 0.1 to
  the \<open>- 4294967296\<close> installs 1.
\<close>

theorem result_slots_fresh_witness:
  "val (fst (bc_add_st demo_state 4 5 4 0)) (snd (bc_add_st demo_state 4 5 4 0))
     = \<lparr>n_scale = 0, n_value = 12\<rparr>
 \<and> val (fst (bc_add_st demo_state 4 5 4 0)) 5 = \<lparr>n_scale = 0, n_value = 5\<rparr>
 \<and> val (fst (bc_multiply_st demo_state 4 5 4 0)) (snd (bc_multiply_st demo_state 4 5 4 0))
     = \<lparr>n_scale = 0, n_value = 35\<rparr>
 \<and> (\<exists>st' p. bc_divide_st demo_state 4 5 4 0 = (0, st', p)
       \<and> val st' p = \<lparr>n_scale = 0, n_value = 1\<rparr> \<and> val st' 5 = \<lparr>n_scale = 0, n_value = 5\<rparr>)
 \<and> (\<exists>st' p. bc_raisemod_st demo_state 4 5 6 4 0 = Some (0, st', p)
       \<and> val st' p = \<lparr>n_scale = 0, n_value = 11\<rparr>)
 \<and> (\<exists>st' p. bc_raise_st demo_state 4 5 4 0 = (st', p)
       \<and> val st' p = \<lparr>n_scale = 0, n_value = 16807\<rparr>)
 \<and> (\<exists>st' q p. bc_divmod_st demo_state 4 5 (Some 5) 4 0 = (0, st', Some q, p)
       \<and> val st' q = \<lparr>n_scale = 0, n_value = 1\<rparr> \<and> val st' p = \<lparr>n_scale = 0, n_value = 2\<rparr>)
 \<and> (\<exists>st' p. bc_raise_st wide_state 4 5 4 0 = (st', p)
       \<and> val st' p = \<lparr>n_scale = 1, n_value = 10\<rparr>)
 \<and> (\<exists>st' p. bc_raise_st wide_state 4 6 4 0 = (st', p)
       \<and> val st' p = \<lparr>n_scale = 0, n_value = 1\<rparr>)"
proof -
  have h: "state_ok demo_state" "live demo_state 4" "live demo_state 5" "(4::nat) = 0 \<or> live demo_state 4"
    by (simp_all add: demo_eval)
  note t = result_slots_fresh[OF h, of 0]
  have v: "val demo_state 4 = \<lparr>n_scale = 0, n_value = 7\<rparr>" "val demo_state 5 = \<lparr>n_scale = 0, n_value = 5\<rparr>"
    "val demo_state 6 = \<lparr>n_scale = 0, n_value = 13\<rparr>"
    by (simp_all add: demo_eval)
  have p1: "bc_add \<lparr>n_scale = 0, n_value = 7\<rparr> \<lparr>n_scale = 0, n_value = 5\<rparr> 0 = \<lparr>n_scale = 0, n_value = 12\<rparr>"
    unfolding bc_add_def Let_def by (simp add: MAX_int_def bc_new_num_def)
  have p2: "bc_multiply \<lparr>n_scale = 0, n_value = 7\<rparr> \<lparr>n_scale = 0, n_value = 5\<rparr> 0 = \<lparr>n_scale = 0, n_value = 35\<rparr>"
    unfolding bc_multiply_def Let_def by (simp add: MAX_int_def MIN_int_def bc_new_num_def)
  have p3: "snd (bc_divide \<lparr>n_scale = 0, n_value = 7\<rparr> \<lparr>n_scale = 0, n_value = 5\<rparr> w 0) = \<lparr>n_scale = 0, n_value = 1\<rparr>" for w
    unfolding bc_divide_def Let_def by (simp add: bc_is_zero_def bc_new_num_def mpz_tdiv_q_def)
  have p4: "snd (bc_raisemod \<lparr>n_scale = 0, n_value = 7\<rparr> \<lparr>n_scale = 0, n_value = 5\<rparr>
      \<lparr>n_scale = 0, n_value = 13\<rparr> w 0) = \<lparr>n_scale = 0, n_value = 11\<rparr>" for w
    unfolding bc_raisemod_def Let_def
    by (simp add: bc_is_zero_def bc_is_neg_def MAX_int_def one_num_def zero_num_def bc_new_num_def
        raisemod_loop_int_step raisemod_loop_int_stop)
  have p5: "bc_raise \<lparr>n_scale = 0, n_value = 7\<rparr> \<lparr>n_scale = 0, n_value = 5\<rparr> w 0
      = \<lparr>n_scale = 0, n_value = 16807\<rparr>" for w
    unfolding bc_raise_def Let_def
    by (simp add: bc_num2long_small LONG_MAX_def raise_power_def MAX_int_def MIN_int_def bc_new_num_def
        long_to_int_def)
  have a: "writes_fresh demo_state 4 (fst (bc_add_st demo_state 4 5 4 0))
      (snd (bc_add_st demo_state 4 5 4 0)) (bc_add (val demo_state 4) (val demo_state 5) 0)"
    using t by blast
  have m: "writes_fresh demo_state 4 (fst (bc_multiply_st demo_state 4 5 4 0))
      (snd (bc_multiply_st demo_state 4 5 4 0)) (bc_multiply (val demo_state 4) (val demo_state 5) 0)"
    using t by blast
  have c1: "val (fst (bc_add_st demo_state 4 5 4 0)) (snd (bc_add_st demo_state 4 5 4 0))
       = \<lparr>n_scale = 0, n_value = 12\<rparr>"
    "val (fst (bc_add_st demo_state 4 5 4 0)) 5 = \<lparr>n_scale = 0, n_value = 5\<rparr>"
    "val (fst (bc_multiply_st demo_state 4 5 4 0)) (snd (bc_multiply_st demo_state 4 5 4 0))
       = \<lparr>n_scale = 0, n_value = 35\<rparr>"
    using a m writes_fresh_keep[OF a h(3)] by (simp_all add: writes_fresh_def v p1 p2)
  have nz: "\<not> bc_is_zero (val demo_state 5)" "live demo_state 6" "\<not> bc_is_zero (val demo_state 6)"
    "\<not> bc_is_neg (val demo_state 5)" "(4::nat) \<noteq> g_one demo_state"
    by (simp_all add: demo_eval)
  have "\<exists>st' p. bc_divide_st demo_state 4 5 4 0 = (0, st', p)
      \<and> (\<forall>w. writes_fresh demo_state 4 st' p (snd (bc_divide (val demo_state 4) (val demo_state 5) w 0)))"
    using t nz(1) by blast
  then obtain s1 q1 where d: "bc_divide_st demo_state 4 5 4 0 = (0, s1, q1)"
    and dw: "writes_fresh demo_state 4 s1 q1 (snd (bc_divide (val demo_state 4) (val demo_state 5) zero_num 0))"
    by blast
  have c2: "\<exists>st' p. bc_divide_st demo_state 4 5 4 0 = (0, st', p)
       \<and> val st' p = \<lparr>n_scale = 0, n_value = 1\<rparr> \<and> val st' 5 = \<lparr>n_scale = 0, n_value = 5\<rparr>"
    using d dw writes_fresh_keep[OF dw h(3)] by (simp add: writes_fresh_def v p3)
  have "\<exists>st' p. bc_raisemod_st demo_state 4 5 6 4 0 = Some (0, st', p)
      \<and> (\<forall>w. val st' p = snd (bc_raisemod (val demo_state 4) (val demo_state 5) (val demo_state 6) w 0))"
    using t nz(2,3,4) by blast
  then have c3: "\<exists>st' p. bc_raisemod_st demo_state 4 5 6 4 0 = Some (0, st', p)
       \<and> val st' p = \<lparr>n_scale = 0, n_value = 11\<rparr>"
    by (simp add: v p4)
  have l5: "bc_num2long (val demo_state 5) = 5"
    by (simp add: v bc_num2long_small LONG_MAX_def)
  have "\<exists>st' p. bc_raise_st demo_state 4 5 4 0 = (st', p)
      \<and> (\<forall>w. writes_fresh demo_state 4 st' p (bc_raise (val demo_state 4) (val demo_state 5) w 0))"
    using t nz(5) by (simp add: l5)
  then have c4: "\<exists>st' p. bc_raise_st demo_state 4 5 4 0 = (st', p)
       \<and> val st' p = \<lparr>n_scale = 0, n_value = 16807\<rparr>"
    by (auto simp: writes_fresh_def v p5)
  have p6: "bc_divmod \<lparr>n_scale = 0, n_value = 7\<rparr> \<lparr>n_scale = 0, n_value = 5\<rparr> (Some w1) w2 0
      = (0, Some \<lparr>n_scale = 0, n_value = 1\<rparr>, \<lparr>n_scale = 0, n_value = 2\<rparr>)" for w1 w2
    by (simp add: bc_divmod_def bc_divide_int bc_is_zero_def bc_multiply_def bc_sub_def
        bc_new_num_def MAX_int_def MIN_int_def Let_def)
  have q5: "((5::nat) = 0 \<or> live demo_state 5)
      \<and> ((5::nat) = 4 \<and> (4::nat) \<noteq> 0 \<longrightarrow> 2 \<le> n_refs (cells demo_state 4))"
    using h(3) by simp
  note dv = t[THEN conjunct2, THEN conjunct2, THEN conjunct2, THEN conjunct1, THEN mp, OF nz(1)]
  note dm = dv[THEN conjunct2, THEN conjunct2, THEN spec, of 5, THEN mp, OF q5]
  then obtain s2 q2 r2 where
    e2: "bc_divmod_st demo_state 4 5 (Some 5) 4 0 = (0, s2, Some q2, r2)"
    and pv: "bc_divmod (val demo_state 4) (val demo_state 5) (Some zero_num) zero_num 0
               = (0, Some (val s2 q2), val s2 r2)"
    by blast
  have "val s2 q2 = \<lparr>n_scale = 0, n_value = 1\<rparr>" "val s2 r2 = \<lparr>n_scale = 0, n_value = 2\<rparr>"
    using pv unfolding v p6 by simp_all
  then have c5: "\<exists>st' q p. bc_divmod_st demo_state 4 5 (Some 5) 4 0 = (0, st', Some q, p)
       \<and> val st' q = \<lparr>n_scale = 0, n_value = 1\<rparr> \<and> val st' p = \<lparr>n_scale = 0, n_value = 2\<rparr>"
    using e2 by blast
  have hw: "state_ok wide_state" "live wide_state 4" "live wide_state 5" "live wide_state 6"
    "(4::nat) = 0 \<or> live wide_state 4"
    "(4::nat) = g_one wide_state \<longrightarrow> 2 \<le> n_refs (cells wide_state 4)"
    by (simp_all add: wide_eval)
  have vw: "val wide_state 4 = \<lparr>n_scale = 1, n_value = 1\<rparr>"
    "val wide_state 5 = \<lparr>n_scale = 0, n_value = 4294967296\<rparr>"
    "val wide_state 6 = \<lparr>n_scale = 0, n_value = - 4294967296\<rparr>"
    by (simp_all add: wide_eval)
  have lw: "bc_num2long \<lparr>n_scale = 0, n_value = 4294967296\<rparr> = 4294967296"
    by (simp add: bc_num2long_small LONG_MAX_def)
  note rp = result_slots_fresh[OF hw(1) hw(2) hw(3) hw(5), of 0, THEN conjunct2, THEN conjunct2,
      THEN conjunct2, THEN conjunct2, THEN conjunct2, THEN mp, OF hw(6)]
  note rn = result_slots_fresh[OF hw(1) hw(2) hw(4) hw(5), of 0, THEN conjunct2, THEN conjunct2,
      THEN conjunct2, THEN conjunct2, THEN conjunct2, THEN mp, OF hw(6)]
  have c6: "\<exists>st' p. bc_raise_st wide_state 4 5 4 0 = (st', p) \<and> val st' p = \<lparr>n_scale = 1, n_value = 10\<rparr>"
    using rp[unfolded vw] by (auto simp: lw writes_fresh_def bc_raise_wide_pos)
  have c7: "\<exists>st' p. bc_raise_st wide_state 4 6 4 0 = (st', p) \<and> val st' p = \<lparr>n_scale = 0, n_value = 1\<rparr>"
    using rn[unfolded vw]
    by (auto simp: bc_num2long_wide_neg raise_power_wide_neg bc_is_zero_def writes_fresh_def
        bc_raise_wide_neg)
  show ?thesis using c1 c2 c3 c4 c5 c6 c7 by (intro conjI)
qed

lemmas raise_eval = demo_state_eq val_def live_def bc_num2long_def mpz_fits_slong_p_def LONG_MAX_def
  bc_free_num_st_def bc_copy_num_st_def raise_power_st_def bc_new_num_st_def mpz_set_def
  bc_divide_st_def bc_is_zero_def mpz_tdiv_q_def long_to_int_def Let_def

lemma raisemod_share_of_one: "\<exists>st'. bc_raisemod_st demo_state 4 1 6 4 0 = Some (0, st', 2)"
  unfolding bc_raisemod_st_def Let_def
  by (subst raisemod_loop_st.simps)
    (simp add: raise_eval bc_is_neg_def bc_init_num_st_def rt_warn_def)

lemma raise_share_of_one: "snd (bc_raise_st demo_state 4 1 4 0) = 2 \<and> live demo_state 2"
  unfolding bc_raise_st_def raise_exponent_st_eq Let_def
  by (simp add: raise_eval)

text \<open>
  \<open>7 ^ 0\<close> and \<open>7 ^ 0 mod 13\<close>, with the slot holding the 7: the slot receives the
  handle of \<open>_one_\<close>, a cell that was live before the call and not fresh storage.
\<close>

theorem bc_raise_slot_counterexample:
  "snd (bc_raise_st demo_state 4 1 4 0) = g_one demo_state
 \<and> (\<exists>st'. bc_raisemod_st demo_state 4 1 6 4 0 = Some (0, st', g_one demo_state))
 \<and> live demo_state (g_one demo_state)"
proof -
  have g: "g_one demo_state = 2" by (simp add: demo_state_eq)
  show ?thesis
    unfolding g using raise_share_of_one raisemod_share_of_one by simp
qed

subsection \<open>A defect of \<open>bc_raise\<close>\<close>

text \<open>
  With a negative exponent \<open>bc_raise\<close> ends with \<open>bc_divide (_one_, temp, result, rscale)\<close>
  and drops its status.  When \<open>temp\<close>, the power at \<open>scale\<close> digits, is zero, the division
  refuses and nothing is placed in the result: the slot keeps the handle it held, and
  \<open>temp\<close> is never released.  \<open>0.5 ^ (- 1)\<close> at scale 0 is such a call (5 is cut to 0):
  the slot holds 0.5 after the call whose slot held the base and 7 after the call whose
  slot held 7, and no call installs 2.
\<close>

lemma raise_unwritten_alias: "snd (bc_raise_st demo_state 8 9 8 0) = 8
  \<and> val (fst (bc_raise_st demo_state 8 9 8 0)) 8 = \<lparr>n_scale = 1, n_value = 5\<rparr>"
  unfolding bc_raise_st_def raise_exponent_st_eq Let_def
  by (simp add: raise_eval)

lemma raise_unwritten_other: "snd (bc_raise_st demo_state 8 9 4 0) = 4
  \<and> val (fst (bc_raise_st demo_state 8 9 4 0)) 4 = \<lparr>n_scale = 0, n_value = 7\<rparr>"
  unfolding bc_raise_st_def raise_exponent_st_eq Let_def
  by (simp add: raise_eval)

end
